theory Spec2Isabelle
  imports Complex_Main "HOL-Library.AList" "HOL-Library.Multiset"
begin

section \<open>Data model\<close>

text \<open>
  The transfer engine is the class \<open>TransferLogic\<close>. Python strings are sequences of
  Unicode code points, Python integers are unbounded, and a Python float is a
  rational number (a double); a true division or a float product rounds its exact
  result to a double, which the model writes as an explicit rounding function
  \<open>fl\<close> that every float operation of the source passes its exact result through.
\<close>

type_synonym py_str = "nat list"

definition py :: "string \<Rightarrow> py_str" where
  "py s = map of_char s"

text \<open>A scanned file: the dictionary \<open>{'path': path, 'size': size}\<close>.\<close>

record file_info =
  path :: py_str
  size_bytes :: int

text \<open>
  A task dictionary. Its \<open>'type'\<close> entry is \<open>'pack'\<close>, \<open>'move_large'\<close> or
  \<open>'resume_extract'\<close>; packs carry \<open>'pack_id'\<close> and \<open>'files'\<close>, moves carry
  \<open>'file_info'\<close>.
\<close>

datatype task =
    Pack (task_id: py_str) (pack_id: int) (files: "file_info list")
  | MoveLarge (task_id: py_str) (large_file: file_info)
  | ResumeExtract (task_id: py_str) (pack_id: int) (files: "file_info list")

definition sum_sizes :: "file_info list \<Rightarrow> int" where
  "sum_sizes fs = sum_list (map size_bytes fs)"

datatype py_error =
    ZeroDivisionError
  | UnicodeEncodeError
  | TimeoutExpired
  | CalledProcessError int
  | OtherException

text \<open>
  The calls of \<open>status_callback(message, progress_value)\<close>: the message template
  with the values formatted into it, and the optional progress argument.
\<close>

datatype status_msg =
    Msg_resuming
  | Msg_prepare
  | Msg_scan_and_plan
  | Msg_scanning
  | Msg_no_files
  | Msg_threshold rat
  | Msg_start nat
  | Msg_no_tasks
  | Msg_done
  | Msg_cleanup
  | Msg_mklink
  | Msg_task_failed
  | Msg_progress int
  | Msg_resumed rat

type_synonym status_call = "status_msg \<times> rat option"

text \<open>
  The session file \<open>transfer_session.json\<close> once parsed; a key that is absent is
  \<open>None\<close> (the source reads every key with \<open>dict.get\<close>).
\<close>

record session_data =
  sd_source_dir :: "py_str option"
  sd_target_dir :: "py_str option"
  sd_total_transfer_size :: "int option"
  sd_task_plan :: "task list option"
  sd_completed_task_ids :: "py_str list option"

text \<open>
  Futures, named by the pool call that created them and numbered in creation order:
  a main future comes from \<open>transfer_executor.submit(self._process_main_task, task)\<close>
  and carries \<open>_main_task_done_callback\<close>; a clean-up future comes from a
  \<open>cleanup_executor.submit\<close> inside that callback and carries
  \<open>_cleanup_task_done_callback\<close>. Delete futures are created by the worker and are
  only ever keys of \<open>final_callbacks\<close>.
\<close>

datatype future = MainFuture nat | CleanupFuture nat

text \<open>
  The fields of \<open>TransferLogic\<close>. \<open>active_futures\<close> is the dictionary from futures
  (numbered as they are created) to tasks; \<open>final_callbacks\<close> holds the done-callbacks
  attached to delete futures, each a closure over the task and its cache files;
  \<open>completed_task_queue\<close> lists the task ids put on the queue; \<open>status_calls\<close> lists
  the calls of the status callback; \<open>teardown_done\<close> records that \<open>run\<close> entered
  its final clean-up.
\<close>

record transfer_logic =
  source_dir :: py_str
  target_dir :: py_str
  max_workers :: int
  chunk_size_limit :: int
  chunk_file_limit :: int
  resume_session :: bool
  copy_only :: bool
  create_mklink :: bool
  task_plan :: "task list"
  recovery_tasks :: "task list"
  total_transfer_size :: int
  processed_size :: int
  last_reported_progress :: int
  completed_task_queue :: "py_str list"
  completed_task_ids :: "py_str set"
  stop_event :: bool
  transfer_failed :: bool
  active_futures :: "(future \<times> task) list"
  next_future :: nat
  final_callbacks :: "(nat \<times> task \<times> py_str list) list"
  status_calls :: "status_call list"
  teardown_done :: bool

definition status_callback :: "status_msg \<Rightarrow> rat option \<Rightarrow> transfer_logic \<Rightarrow> transfer_logic" where
  "status_callback msg progress st = st\<lparr> status_calls := status_calls st @ [(msg, progress)] \<rparr>"

section \<open>The planner: \<open>_scan_and_plan\<close>\<close>

text \<open>
  \<open>avg_size = total / len(all_files)\<close>, \<open>dynamic_threshold = avg_size * 10\<close>, then
  \<open>min(..., 256 MiB)\<close> and \<open>max(..., 16 MiB)\<close>.
\<close>

definition large_file_threshold :: "(rat \<Rightarrow> rat) \<Rightarrow> int \<Rightarrow> nat \<Rightarrow> rat" where
  "large_file_threshold fl total_size n =
     (let avg_size = fl (of_int total_size / of_nat n);
          dynamic_threshold = fl (avg_size * 10);
          t = min dynamic_threshold (of_int (256 * 1024 * 1024))
      in max t (of_int (16 * 1024 * 1024)))"

text \<open>
  The classification loop. \<open>uuid4\<close> is the stream of identifiers that successive
  calls of \<open>uuid.uuid4()\<close> return and \<open>k\<close> counts the calls made so far.
\<close>

fun classify_files ::
  "(nat \<Rightarrow> py_str) \<Rightarrow> rat \<Rightarrow> file_info list \<Rightarrow> task list \<Rightarrow> file_info list \<Rightarrow> nat
    \<Rightarrow> task list \<times> file_info list \<times> nat" where
  "classify_files uuid4 thr [] plan small k = (plan, small, k)"
| "classify_files uuid4 thr (f # fs) plan small k =
     (if of_int (size_bytes f) \<ge> thr
      then classify_files uuid4 thr fs (plan @ [MoveLarge (uuid4 k) f]) small (Suc k)
      else classify_files uuid4 thr fs plan (small @ [f]) k)"

definition ideal_files_per_pack :: "int \<Rightarrow> int \<Rightarrow> file_info list \<Rightarrow> int" where
  "ideal_files_per_pack workers file_limit small =
     (if workers > 0 \<and> small \<noteq> []
      then (int (length small) + workers - 1) div workers
      else file_limit)"

text \<open>The test that seals the current chunk before the next file is appended.\<close>

definition seal_cond :: "int \<Rightarrow> int \<Rightarrow> file_info list \<Rightarrow> int \<Rightarrow> file_info \<Rightarrow> bool" where
  "seal_cond ideal limit chunk chunk_size f \<longleftrightarrow>
     chunk \<noteq> [] \<and>
     (int (length chunk) \<ge> ideal \<or> chunk_size + size_bytes f > limit)"

text \<open>The loop state: chunk, its byte size, the pack counter, the plan, the uuid count.\<close>

record chunk_state =
  current_chunk :: "file_info list"
  current_chunk_size :: int
  pack_id_counter :: int
  plan_acc :: "task list"
  uuid_calls :: nat

definition seal_chunk :: "(nat \<Rightarrow> py_str) \<Rightarrow> chunk_state \<Rightarrow> chunk_state" where
  "seal_chunk uuid4 s =
     s\<lparr> pack_id_counter := pack_id_counter s + 1,
        plan_acc := plan_acc s @
          [Pack (uuid4 (uuid_calls s)) (pack_id_counter s + 1) (current_chunk s)],
        uuid_calls := Suc (uuid_calls s),
        current_chunk := [],
        current_chunk_size := 0 \<rparr>"

definition chunk_step ::
  "(nat \<Rightarrow> py_str) \<Rightarrow> int \<Rightarrow> int \<Rightarrow> chunk_state \<Rightarrow> file_info \<Rightarrow> chunk_state" where
  "chunk_step uuid4 ideal limit s f =
     (let s1 = (if seal_cond ideal limit (current_chunk s) (current_chunk_size s) f
                then seal_chunk uuid4 s else s)
      in s1\<lparr> current_chunk := current_chunk s1 @ [f],
              current_chunk_size := current_chunk_size s1 + size_bytes f \<rparr>)"

fun chunk_loop ::
  "(nat \<Rightarrow> py_str) \<Rightarrow> int \<Rightarrow> int \<Rightarrow> file_info list \<Rightarrow> chunk_state \<Rightarrow> chunk_state" where
  "chunk_loop uuid4 ideal limit [] s = s"
| "chunk_loop uuid4 ideal limit (f # fs) s =
     chunk_loop uuid4 ideal limit fs (chunk_step uuid4 ideal limit s f)"

definition chunk_files ::
  "(nat \<Rightarrow> py_str) \<Rightarrow> int \<Rightarrow> int \<Rightarrow> file_info list \<Rightarrow> task list \<Rightarrow> nat \<Rightarrow> task list \<times> nat" where
  "chunk_files uuid4 ideal limit small plan k =
     (let s = chunk_loop uuid4 ideal limit small
                \<lparr> current_chunk = [], current_chunk_size = 0, pack_id_counter = 0,
                  plan_acc = plan, uuid_calls = k \<rparr>;
          s' = (if current_chunk s \<noteq> [] then seal_chunk uuid4 s else s)
      in (plan_acc s', uuid_calls s'))"

definition scan_and_plan ::
  "(rat \<Rightarrow> rat) \<Rightarrow> (file_info list \<Rightarrow> file_info list) \<Rightarrow> (nat \<Rightarrow> py_str) \<Rightarrow>
   file_info list \<Rightarrow> transfer_logic \<Rightarrow> transfer_logic" where
  "scan_and_plan fl shuffle uuid4 all_files st =
     (let st1 = status_callback Msg_scanning None st;
          st2 = st1\<lparr> total_transfer_size := sum_sizes all_files \<rparr>
      in if all_files = [] then status_callback Msg_no_files None st2
         else
           (let thr = large_file_threshold fl (total_transfer_size st2) (length all_files);
                st3 = status_callback (Msg_threshold (thr / 1024 / 1024)) None st2;
                (plan1, small_files_to_pack, k1) =
                   classify_files uuid4 thr all_files (task_plan st3) [] 0;
                shuffled = shuffle small_files_to_pack;
                ideal = ideal_files_per_pack (max_workers st3) (chunk_file_limit st3) shuffled;
                (plan2, k2) = chunk_files uuid4 ideal (chunk_size_limit st3) shuffled plan1 k1
            in st3\<lparr> task_plan := plan2 \<rparr>))"

section \<open>Progress: \<open>_update_progress\<close>\<close>

definition task_size :: "task \<Rightarrow> int" where
  "task_size t =
     (case t of
        Pack _ _ fs \<Rightarrow> sum_sizes fs
      | ResumeExtract _ _ fs \<Rightarrow> sum_sizes fs
      | MoveLarge _ f \<Rightarrow> size_bytes f)"

text \<open>Python's \<open>int(x)\<close> on a float truncates towards zero.\<close>

definition int_of_float :: "rat \<Rightarrow> int" where
  "int_of_float x = (if x \<ge> 0 then \<lfloor>x\<rfloor> else \<lceil>x\<rceil>)"

text \<open>
  \<open>(processed_size / total_transfer_size) * 100\<close>: a true division of two integers,
  which raises \<open>ZeroDivisionError\<close> on a zero divisor, then a float product.
\<close>

definition progress_percent :: "(rat \<Rightarrow> rat) \<Rightarrow> int \<Rightarrow> int \<Rightarrow> rat" where
  "progress_percent fl processed total_size =
     fl (fl (of_int processed / of_int total_size) * 100)"

text \<open>
  The result is the exception that escapes, if any, and the state it leaves: the
  size is added before the division is tried.
\<close>

definition update_progress ::
  "(rat \<Rightarrow> rat) \<Rightarrow> task \<Rightarrow> bool \<Rightarrow> transfer_logic \<Rightarrow> py_error option \<times> transfer_logic" where
  "update_progress fl t failed st =
     (let st1 = st\<lparr> processed_size := processed_size st + task_size t \<rparr>
      in if total_transfer_size st1 = 0 then (Some ZeroDivisionError, st1)
         else
           (let progress = progress_percent fl (processed_size st1) (total_transfer_size st1)
            in if failed then (None, status_callback Msg_task_failed (Some progress) st1)
               else if int_of_float progress > last_reported_progress st1
               then (None, status_callback (Msg_progress (int_of_float progress)) (Some progress)
                             (st1\<lparr> last_reported_progress := int_of_float progress \<rparr>))
               else (None, st1)))"

section \<open>The session store: \<open>_load_session\<close> and \<open>_plan_recovery_tasks\<close>\<close>

fun load_tasks :: "task list \<Rightarrow> transfer_logic \<Rightarrow> transfer_logic" where
  "load_tasks [] st = st"
| "load_tasks (t # ts) st =
     load_tasks ts
       (if task_id t \<in> completed_task_ids st
        then (case t of
                Pack _ _ fs \<Rightarrow> st\<lparr> processed_size := processed_size st + sum_sizes fs \<rparr>
              | MoveLarge _ f \<Rightarrow> st\<lparr> processed_size := processed_size st + size_bytes f \<rparr>
              | ResumeExtract _ _ _ \<Rightarrow> st)
        else st\<lparr> task_plan := task_plan st @ [t] \<rparr>)"

definition get_default :: "'a \<Rightarrow> 'a option \<Rightarrow> 'a" where
  "get_default d v = (case v of None \<Rightarrow> d | Some x \<Rightarrow> x)"

text \<open>
  The session file is \<open>None\<close> when it cannot be opened or parsed. The result is the
  returned Boolean and the state.
\<close>

definition load_session ::
  "(rat \<Rightarrow> rat) \<Rightarrow> session_data option \<Rightarrow> transfer_logic \<Rightarrow> bool \<times> transfer_logic" where
  "load_session fl session_file st =
     (case session_file of
        None \<Rightarrow> (False, st)
      | Some sd \<Rightarrow>
          if sd_source_dir sd \<noteq> Some (source_dir st) \<or> sd_target_dir sd \<noteq> Some (target_dir st)
          then (False, st)
          else
            (let st1 = st\<lparr> total_transfer_size := get_default 0 (sd_total_transfer_size sd),
                           completed_task_ids := set (get_default [] (sd_completed_task_ids sd)),
                           processed_size := 0,
                           task_plan := [] \<rparr>;
                 st2 = load_tasks (get_default [] (sd_task_plan sd)) st1;
                 st3 = (if total_transfer_size st2 > 0
                        then (let progress = progress_percent fl (processed_size st2)
                                               (total_transfer_size st2)
                              in status_callback (Msg_resumed progress) (Some progress) st2)
                        else st2)
             in (True, st3)))"

subsection \<open>Names of cached archives\<close>

text \<open>\<open>str(n)\<close> for an integer: its decimal digits, with a minus sign when negative.\<close>

fun digits_of_nat :: "nat \<Rightarrow> py_str" where
  "digits_of_nat n = (if n < 10 then [48 + n] else digits_of_nat (n div 10) @ [48 + n mod 10])"

declare digits_of_nat.simps [simp del]

definition str_of_int :: "int \<Rightarrow> py_str" where
  "str_of_int i = (if i < 0 then 45 # digits_of_nat (nat (- i)) else digits_of_nat (nat i))"

text \<open>\<open>archive_name = f"pack_{pack_id}.7z"\<close>\<close>

definition archive_name :: "int \<Rightarrow> py_str" where
  "archive_name pid = py ''pack_'' @ str_of_int pid @ py ''.7z''"

definition startswith :: "py_str \<Rightarrow> py_str \<Rightarrow> bool" where
  "startswith s p \<longleftrightarrow> take (length p) s = p"

definition endswith :: "py_str \<Rightarrow> py_str \<Rightarrow> bool" where
  "endswith s p \<longleftrightarrow> length p \<le> length s \<and> drop (length s - length p) s = p"

text \<open>\<open>s.split(c)\<close> for a separator of one character: never an empty list.\<close>

fun split_on :: "nat \<Rightarrow> py_str \<Rightarrow> py_str list" where
  "split_on c [] = [[]]"
| "split_on c (x # xs) =
     (if x = c then [] # split_on c xs
      else (case split_on c xs of [] \<Rightarrow> [[x]] | p # ps \<Rightarrow> (x # p) # ps))"

text \<open>
  \<open>int(s)\<close> on a string, as the interpreter reads it. A string with a character
  above ASCII is first rewritten: characters below 127 stay, a Unicode white
  space becomes a blank, a Unicode decimal digit its ASCII digit, anything else a
  question mark (the interpreter stops there; the parse fails either way). Then
  ASCII white space is skipped, one sign may lead, and a non-empty run of digits
  follows, in which single underscores may separate digits; only ASCII white
  space may follow. \<open>None\<close> is \<open>ValueError\<close>. The interpreter's limit on the
  number of digits (4300 by default) is left out: no file name is that long.
\<close>

definition ascii_space :: "nat \<Rightarrow> bool" where
  "ascii_space c \<longleftrightarrow> c = 32 \<or> (9 \<le> c \<and> c \<le> 13)"

definition unicode_space :: "nat \<Rightarrow> bool" where
  "unicode_space c \<longleftrightarrow>
     c \<in> {133, 160, 5760, 8232, 8233, 8239, 8287, 12288} \<or> (8192 \<le> c \<and> c \<le> 8202)"

text \<open>
  The code points of the digits zero of the decimal digit blocks above ASCII
  (Unicode 14); the nine code points after each are its digits one to nine.
\<close>

definition decimal_zeros :: "nat list" where
  "decimal_zeros =
     [1632, 1776, 1984, 2406, 2534, 2662, 2790, 2918, 3046, 3174, 3302, 3430, 3558, 3664,
      3792, 3872, 4160, 4240, 6112, 6160, 6470, 6608, 6784, 6800, 6992, 7088, 7232, 7248,
      42528, 43216, 43264, 43472, 43504, 43600, 44016, 65296, 66720, 68912, 69734, 69872,
      69942, 70096, 70384, 70736, 70864, 71248, 71360, 71472, 71904, 72016, 72784, 73040,
      73120, 92768, 92864, 93008, 120782, 120792, 120802, 120812, 120822, 123200, 123632,
      125264, 130032]"

definition unicode_decimal :: "nat \<Rightarrow> nat option" where
  "unicode_decimal c = map_option (\<lambda>z. c - z) (find (\<lambda>z. z \<le> c \<and> c < z + 10) decimal_zeros)"

definition to_ascii :: "py_str \<Rightarrow> py_str" where
  "to_ascii s =
     (if list_all (\<lambda>c. c < 128) s then s
      else map (\<lambda>c. if c < 127 then c
                     else if unicode_space c then 32
                     else (case unicode_decimal c of Some d \<Rightarrow> 48 + d | None \<Rightarrow> 63)) s)"

definition is_digit :: "nat \<Rightarrow> bool" where
  "is_digit c \<longleftrightarrow> 48 \<le> c \<and> c \<le> 57"

fun double_underscore :: "py_str \<Rightarrow> bool" where
  "double_underscore (a # b # r) \<longleftrightarrow> (a = 95 \<and> b = 95) \<or> double_underscore (b # r)"
| "double_underscore _ \<longleftrightarrow> False"

definition parse_digits :: "py_str \<Rightarrow> nat option" where
  "parse_digits ds =
     (if ds \<noteq> [] \<and> list_all is_digit ds
      then Some (foldl (\<lambda>acc d. acc * 10 + (d - 48)) 0 ds)
      else None)"

definition py_int :: "py_str \<Rightarrow> int option" where
  "py_int s =
     (let a = dropWhile ascii_space (to_ascii s);
          negative = (a \<noteq> [] \<and> hd a = 45);
          b = (if a \<noteq> [] \<and> (hd a = 45 \<or> hd a = 43) then tl a else a);
          body = takeWhile (\<lambda>c. is_digit c \<or> c = 95) b;
          rest = dropWhile (\<lambda>c. is_digit c \<or> c = 95) b
      in if body = [] \<or> hd body = 95 \<or> last body = 95 \<or> double_underscore body
            \<or> \<not> list_all ascii_space rest
         then None
         else map_option (\<lambda>n. if negative then - int n else int n)
                (parse_digits (filter (\<lambda>c. c \<noteq> 95) body)))"

text \<open>
  \<open>int(item.split('_')[1].split('.')[0])\<close>; \<open>None\<close> stands for the \<open>ValueError\<close> or
  \<open>IndexError\<close> that makes the loop skip the item.
\<close>

definition parse_pack_id :: "py_str \<Rightarrow> int option" where
  "parse_pack_id item =
     (case split_on 95 item of
        _ # p # _ \<Rightarrow> (case split_on 46 p of q # _ \<Rightarrow> py_int q | [] \<Rightarrow> None)
      | _ \<Rightarrow> None)"

text \<open>
  \<open>{t['pack_id']: t for t in full_task_plan if t['type'] == 'pack'}\<close>: a later
  task replaces an earlier one with the same key.
\<close>

definition is_pack :: "task \<Rightarrow> bool" where
  "is_pack t = (case t of Pack _ _ _ \<Rightarrow> True | _ \<Rightarrow> False)"

definition pack_id_to_task :: "task list \<Rightarrow> int \<Rightarrow> task option" where
  "pack_id_to_task full_task_plan =
     map_of (rev (map (\<lambda>t. (pack_id t, t)) (filter is_pack full_task_plan)))"

definition recovery_item :: "(int \<Rightarrow> task option) \<Rightarrow> py_str \<Rightarrow> transfer_logic \<Rightarrow> transfer_logic" where
  "recovery_item m item st =
     (if startswith item (py ''pack_'') \<and> endswith item (py ''.7z'')
      then (case parse_pack_id item of
              None \<Rightarrow> st
            | Some pid \<Rightarrow>
                (case m pid of
                   None \<Rightarrow> st
                 | Some original_task \<Rightarrow>
                     if task_id original_task \<notin> completed_task_ids st
                     then st\<lparr> recovery_tasks := recovery_tasks st @
                                 [ResumeExtract (task_id original_task) (pack_id original_task)
                                    (files original_task)],
                               task_plan := filter (\<lambda>t. task_id t \<noteq> task_id original_task)
                                              (task_plan st) \<rparr>
                     else st))
      else st)"

fun recovery_loop :: "(int \<Rightarrow> task option) \<Rightarrow> py_str list \<Rightarrow> transfer_logic \<Rightarrow> transfer_logic" where
  "recovery_loop m [] st = st"
| "recovery_loop m (item # items) st = recovery_loop m items (recovery_item m item st)"

text \<open>
  \<open>cache_listing\<close> is \<open>os.listdir(cache_dir)\<close>, or \<open>None\<close> when the cache directory
  does not exist.
\<close>

definition plan_recovery_tasks ::
  "session_data option \<Rightarrow> py_str list option \<Rightarrow> transfer_logic \<Rightarrow> transfer_logic" where
  "plan_recovery_tasks session_file cache_listing st =
     (case session_file of
        None \<Rightarrow> st
      | Some sd \<Rightarrow>
          (case cache_listing of
             None \<Rightarrow> st
           | Some items \<Rightarrow>
               recovery_loop (pack_id_to_task (get_default [] (sd_task_plan sd))) items st))"

section \<open>The execution pipeline: callbacks\<close>

text \<open>What \<open>_process_main_task\<close> returns: the dictionaries of type \<open>pack_cleanup\<close>
  (the delete future, \<open>None\<close> in copy-only mode, and the cache files) and
  \<open>large_cleanup\<close> (the source files whose directories are to be reclaimed).\<close>

datatype main_result =
    PackCleanup "nat option" "py_str list"
  | LargeCleanup "py_str list"

definition mark_task_complete :: "task \<Rightarrow> transfer_logic \<Rightarrow> transfer_logic" where
  "mark_task_complete t st = st\<lparr> completed_task_queue := completed_task_queue st @ [task_id t] \<rparr>"

text \<open>
  The \<open>except Exception\<close> clause that the three callbacks share: set
  \<open>_transfer_failed\<close>, then \<open>_update_progress(task, failed=True)\<close>; an exception
  of that call leaves the callback.
\<close>

definition task_failed_handler :: "(rat \<Rightarrow> rat) \<Rightarrow> task \<Rightarrow> transfer_logic \<Rightarrow> transfer_logic" where
  "task_failed_handler fl t st = snd (update_progress fl t True (st\<lparr> transfer_failed := True \<rparr>))"

text \<open>
  The end of the \<open>try\<close> block that the three callbacks share:
  \<open>_mark_task_complete(task)\<close>, then \<open>_update_progress(task)\<close>, whose exception
  the \<open>except\<close> clause catches.
\<close>

definition complete_task :: "(rat \<Rightarrow> rat) \<Rightarrow> task \<Rightarrow> transfer_logic \<Rightarrow> transfer_logic" where
  "complete_task fl t st =
     (case update_progress fl t False (mark_task_complete t st) of
        (None, st') \<Rightarrow> st'
      | (Some e, st') \<Rightarrow> task_failed_handler fl t st')"

text \<open>\<open>cleanup_executor.submit(...)\<close>, the new future entered into \<open>active_futures\<close>.\<close>

definition submit_cleanup :: "task \<Rightarrow> transfer_logic \<Rightarrow> transfer_logic" where
  "submit_cleanup t st =
     st\<lparr> active_futures := AList.update (CleanupFuture (next_future st)) t (active_futures st),
         next_future := Suc (next_future st) \<rparr>"

text \<open>\<open>result\<close> is what \<open>future.result()\<close> gives: an exception or the returned value.\<close>

definition main_task_done_callback ::
  "(rat \<Rightarrow> rat) \<Rightarrow> future \<Rightarrow> py_error + main_result \<Rightarrow> transfer_logic \<Rightarrow> transfer_logic" where
  "main_task_done_callback fl fut result st =
     (case map_of (active_futures st) fut of
        None \<Rightarrow> st
      | Some original_task \<Rightarrow>
          (let st1 = st\<lparr> active_futures := AList.delete fut (active_futures st) \<rparr>
           in case result of
                Inl e \<Rightarrow> task_failed_handler fl original_task st1
              | Inr (PackCleanup (Some delete_future) cache_files) \<Rightarrow>
                  st1\<lparr> final_callbacks := final_callbacks st1 @
                          [(delete_future, original_task, cache_files)] \<rparr>
              | Inr (PackCleanup None cache_files) \<Rightarrow> submit_cleanup original_task st1
              | Inr (LargeCleanup source_files) \<Rightarrow>
                  if source_files \<noteq> [] then submit_cleanup original_task st1
                  else complete_task fl original_task st1))"

text \<open>
  \<open>delete_result\<close> is \<open>delete_future.result()\<close>; \<open>cleanup_raises\<close> says whether
  \<open>_cleanup_cache_only\<close> or \<open>_cleanup_empty_dirs_task\<close> raises.
\<close>

definition final_cleanup_callback ::
  "(rat \<Rightarrow> rat) \<Rightarrow> py_error + py_str list \<Rightarrow> bool \<Rightarrow> task \<Rightarrow> py_str list \<Rightarrow>
   transfer_logic \<Rightarrow> transfer_logic" where
  "final_cleanup_callback fl delete_result cleanup_raises original_task cache_files st =
     (case delete_result of
        Inl e \<Rightarrow> task_failed_handler fl original_task st
      | Inr deleted_source_files \<Rightarrow>
          if cleanup_raises then task_failed_handler fl original_task st
          else complete_task fl original_task st)"

definition cleanup_task_done_callback ::
  "(rat \<Rightarrow> rat) \<Rightarrow> future \<Rightarrow> py_error + unit \<Rightarrow> transfer_logic \<Rightarrow> transfer_logic" where
  "cleanup_task_done_callback fl fut result st =
     (case map_of (active_futures st) fut of
        None \<Rightarrow> st
      | Some original_task \<Rightarrow>
          (let st1 = st\<lparr> active_futures := AList.delete fut (active_futures st) \<rparr>
           in case result of
                Inl e \<Rightarrow> task_failed_handler fl original_task st1
              | Inr _ \<Rightarrow> complete_task fl original_task st1))"

section \<open>The execution pipeline: \<open>_execute_plan\<close> and \<open>run\<close>\<close>

text \<open>
  What the pools and the user do, in the order in which the callbacks (serialised
  by the interpreter) see it: a main future finishes, a delete future finishes
  and its done-callbacks run, a clean-up future finishes, \<open>stop()\<close> is called.
\<close>

datatype event =
    MainDone nat "py_error + main_result"
  | DeleteDone nat "py_error + py_str list" bool
  | CleanupDone nat "py_error + unit"
  | StopRequested

definition run_final_callbacks ::
  "(rat \<Rightarrow> rat) \<Rightarrow> nat \<Rightarrow> py_error + py_str list \<Rightarrow> bool \<Rightarrow> transfer_logic \<Rightarrow> transfer_logic" where
  "run_final_callbacks fl d delete_result cleanup_raises st =
     foldl (\<lambda>s (d', t, cache_files). final_cleanup_callback fl delete_result cleanup_raises t cache_files s)
       (st\<lparr> final_callbacks := filter (\<lambda>(d', t, c). d' \<noteq> d) (final_callbacks st) \<rparr>)
       (filter (\<lambda>(d', t, c). d' = d) (final_callbacks st))"

fun step :: "(rat \<Rightarrow> rat) \<Rightarrow> transfer_logic \<Rightarrow> event \<Rightarrow> transfer_logic" where
  "step fl st (MainDone n result) = main_task_done_callback fl (MainFuture n) result st"
| "step fl st (DeleteDone d delete_result cleanup_raises) =
     run_final_callbacks fl d delete_result cleanup_raises st"
| "step fl st (CleanupDone n result) = cleanup_task_done_callback fl (CleanupFuture n) result st"
| "step fl st StopRequested = st\<lparr> stop_event := True \<rparr>"

fun submit_tasks :: "task list \<Rightarrow> transfer_logic \<Rightarrow> transfer_logic" where
  "submit_tasks [] st = st"
| "submit_tasks (t # ts) st =
     submit_tasks ts
       (st\<lparr> active_futures := AList.update (MainFuture (next_future st)) t (active_futures st),
           next_future := Suc (next_future st) \<rparr>)"

definition submit_plan :: "transfer_logic \<Rightarrow> transfer_logic" where
  "submit_plan st =
     submit_tasks (task_plan st) (submit_tasks (recovery_tasks st) (st\<lparr> active_futures := [] \<rparr>))"

definition execute_plan :: "(rat \<Rightarrow> rat) \<Rightarrow> event list \<Rightarrow> transfer_logic \<Rightarrow> transfer_logic" where
  "execute_plan fl evs st =
     (if task_plan st = [] \<and> recovery_tasks st = []
      then status_callback Msg_no_tasks None st
      else foldl (step fl) (submit_plan st) evs)"

text \<open>The \<open>finally\<close> clause of \<open>run\<close>.\<close>

definition finally_clause :: "transfer_logic \<Rightarrow> transfer_logic" where
  "finally_clause st =
     (if \<not> stop_event st \<and> \<not> transfer_failed st
      then (let st1 = (status_callback Msg_cleanup None st)\<lparr> teardown_done := True \<rparr>
            in if create_mklink st1 then status_callback Msg_mklink None st1 else st1)
      else st)"

text \<open>
  \<open>run\<close>, in the order of its body. Its inputs from outside: the files the walk
  finds, the session file, the listing of the cache directory, and the events of
  the pools. First the resume request: a session that does not load turns the
  run into a fresh one.
\<close>

definition resume_phase :: "(rat \<Rightarrow> rat) \<Rightarrow> session_data option \<Rightarrow> transfer_logic \<Rightarrow> transfer_logic" where
  "resume_phase fl session_file st =
     (if resume_session st
      then (case load_session fl session_file (status_callback Msg_resuming None st) of
              (True, st') \<Rightarrow> st'
            | (False, st') \<Rightarrow>
                st'\<lparr> resume_session := False, task_plan := [],
                     total_transfer_size := 0, processed_size := 0 \<rparr>)
      else st)"

text \<open>Then the plan: a scan for a fresh run, the recovery scan for a resumed one.\<close>

definition plan_phase ::
  "(rat \<Rightarrow> rat) \<Rightarrow> (file_info list \<Rightarrow> file_info list) \<Rightarrow> (nat \<Rightarrow> py_str) \<Rightarrow>
   file_info list \<Rightarrow> session_data option \<Rightarrow> py_str list option \<Rightarrow>
   transfer_logic \<Rightarrow> transfer_logic" where
  "plan_phase fl shuffle uuid4 all_files session_file cache_listing st =
     (let st2 = st\<lparr> recovery_tasks := [] \<rparr>
      in if \<not> resume_session st2
         then scan_and_plan fl shuffle uuid4 all_files
                (status_callback Msg_scan_and_plan None (status_callback Msg_prepare None st2))
         else plan_recovery_tasks session_file cache_listing st2)"

text \<open>Then the execution, unless there is nothing to do.\<close>

definition execute_phase :: "(rat \<Rightarrow> rat) \<Rightarrow> event list \<Rightarrow> transfer_logic \<Rightarrow> transfer_logic" where
  "execute_phase fl evs st =
     (if task_plan st = [] \<and> recovery_tasks st = [] \<and> \<not> resume_session st
      then status_callback Msg_done (Some 100) st
      else (let st' = execute_plan fl evs
                        (status_callback (Msg_start (length (task_plan st))) None st)
            in if \<not> stop_event st' then status_callback Msg_done (Some 100) st' else st'))"

definition run ::
  "(rat \<Rightarrow> rat) \<Rightarrow> (file_info list \<Rightarrow> file_info list) \<Rightarrow> (nat \<Rightarrow> py_str) \<Rightarrow>
   file_info list \<Rightarrow> session_data option \<Rightarrow> py_str list option \<Rightarrow> event list \<Rightarrow>
   transfer_logic \<Rightarrow> transfer_logic" where
  "run fl shuffle uuid4 all_files session_file cache_listing evs st =
     (if stop_event st then st
      else finally_clause
             (execute_phase fl evs
                (plan_phase fl shuffle uuid4 all_files session_file cache_listing
                   (resume_phase fl session_file st))))"

section \<open>The archiver supervisor: \<open>_run_command_with_retry\<close>\<close>

text \<open>
  One attempt as the outside world decides it: whether the stop flag is set when
  the loop body starts, what \<open>Popen\<close> and \<open>communicate\<close> do, and whether the stop
  flag is set when the body looks at it again.
\<close>

datatype child_outcome = Child_Timeout | Child_Exited int | Popen_Failed

record attempt =
  stop_at_start :: bool
  child :: child_outcome
  stop_after :: bool

datatype cmd_result = Returned_None | Raised py_error

text \<open>The result, the number of attempts started, and the number of children killed.\<close>

function run_command_loop ::
  "(nat \<Rightarrow> attempt) \<Rightarrow> int \<Rightarrow> nat \<Rightarrow> cmd_result \<times> nat \<times> nat" where
  "run_command_loop env retries i =
     (if int i \<ge> retries then (Returned_None, i, 0)
      else if stop_at_start (env i) then (Returned_None, i, 0)
      else
        (case child (env i) of
           Popen_Failed \<Rightarrow> (Raised OtherException, Suc i, 0)
         | Child_Exited rc \<Rightarrow>
             if stop_after (env i) then (Returned_None, Suc i, 0)
             else if rc \<noteq> 0 then (Raised (CalledProcessError rc), Suc i, 0)
             else (Returned_None, Suc i, 0)
         | Child_Timeout \<Rightarrow>
             if stop_after (env i) then (Returned_None, Suc i, 1)
             else if int i = retries - 1 then (Raised TimeoutExpired, Suc i, 1)
             else (case run_command_loop env retries (Suc i) of
                     (r, n, k) \<Rightarrow> (r, n, Suc k))))"
  by pat_completeness auto
termination
  by (relation "measure (\<lambda>(env, retries, i). nat (retries - int i))") auto

definition run_command_with_retry :: "(nat \<Rightarrow> attempt) \<Rightarrow> int \<Rightarrow> cmd_result \<times> nat \<times> nat" where
  "run_command_with_retry env retries = run_command_loop env retries 0"

section \<open>The file listing of a pack: \<open>_process_main_task\<close>\<close>

datatype os_name = NT | Posix

text \<open>\<open>os.linesep\<close>\<close>

definition os_linesep :: "os_name \<Rightarrow> py_str" where
  "os_linesep os = (case os of NT \<Rightarrow> [13, 10] | Posix \<Rightarrow> [10])"

text \<open>
  A file opened with \<open>open(path, 'w', encoding='utf-8')\<close> is a text file with the
  default \<open>newline=None\<close>: every \<open>'\n'\<close> written is replaced by \<open>os.linesep\<close>, and
  the text is then encoded.
\<close>

definition translate_newlines :: "os_name \<Rightarrow> py_str \<Rightarrow> py_str" where
  "translate_newlines os s = concat (map (\<lambda>c. if c = 10 then os_linesep os else [c]) s)"

definition encodable :: "nat \<Rightarrow> bool" where
  "encodable c \<longleftrightarrow> c < 55296 \<or> (57343 < c \<and> c \<le> 1114111)"

definition utf8_char :: "nat \<Rightarrow> nat list" where
  "utf8_char c =
     (if c < 128 then [c]
      else if c < 2048 then [192 + c div 64, 128 + c mod 64]
      else if c < 65536 then [224 + c div 4096, 128 + (c div 64) mod 64, 128 + c mod 64]
      else [240 + c div 262144, 128 + (c div 4096) mod 64, 128 + (c div 64) mod 64,
            128 + c mod 64])"

definition utf8_encode :: "py_str \<Rightarrow> py_error + nat list" where
  "utf8_encode s =
     (if list_all encodable s then Inr (concat (map utf8_char s)) else Inl UnicodeEncodeError)"

text \<open>
  The text handed to \<open>f.write\<close>, file by file: \<open>relative_path + "\n"\<close>, where
  \<open>relpath\<close> is \<open>os.path.relpath\<close>.
\<close>

fun filelist_text :: "(py_str \<Rightarrow> py_str \<Rightarrow> py_str) \<Rightarrow> py_str \<Rightarrow> file_info list \<Rightarrow> py_str" where
  "filelist_text relpath src [] = []"
| "filelist_text relpath src (f # fs) =
     (relpath (path f) src @ [10]) @ filelist_text relpath src fs"

definition filelist_name :: "int \<Rightarrow> py_str" where
  "filelist_name pid = py ''filelist_'' @ str_of_int pid @ py ''.txt''"

text \<open>The name and the bytes of the listing that a pack task writes.\<close>

definition write_filelist ::
  "os_name \<Rightarrow> (py_str \<Rightarrow> py_str \<Rightarrow> py_str) \<Rightarrow> py_str \<Rightarrow> task \<Rightarrow> py_str \<times> (py_error + nat list)" where
  "write_filelist os relpath src t =
     (filelist_name (pack_id t),
      utf8_encode (translate_newlines os (filelist_text relpath src (files t))))"

section \<open>Auxiliary notions for the proofs\<close>

text \<open>\<open>TransferLogic.__init__\<close>: the configuration and the initial values of the fields.\<close>

definition init_logic ::
  "py_str \<Rightarrow> py_str \<Rightarrow> int \<Rightarrow> int \<Rightarrow> int \<Rightarrow> bool \<Rightarrow> bool \<Rightarrow> bool \<Rightarrow> transfer_logic" where
  "init_logic src dst workers chunk_size_mb file_limit resume copy mklink =
     \<lparr> source_dir = src, target_dir = dst, max_workers = workers,
       chunk_size_limit = chunk_size_mb * 1024 * 1024, chunk_file_limit = file_limit,
       resume_session = resume, copy_only = copy, create_mklink = mklink,
       task_plan = [], recovery_tasks = [], total_transfer_size = 0, processed_size = 0,
       last_reported_progress = - 1, completed_task_queue = [], completed_task_ids = {},
       stop_event = False, transfer_failed = False, active_futures = [], next_future = 0,
       final_callbacks = [], status_calls = [], teardown_done = False \<rparr>"

definition is_move_large :: "task \<Rightarrow> bool" where
  "is_move_large t = (case t of MoveLarge _ _ \<Rightarrow> True | _ \<Rightarrow> False)"

text \<open>
  The chunks that the chunking loop produces, as lists of files: the loop seen
  without its counters. \<open>cur\<close> is the chunk being filled.
\<close>

fun split_chunks :: "int \<Rightarrow> int \<Rightarrow> file_info list \<Rightarrow> file_info list \<Rightarrow> file_info list list" where
  "split_chunks ideal limit cur [] = (if cur = [] then [] else [cur])"
| "split_chunks ideal limit cur (f # fs) =
     (if seal_cond ideal limit cur (sum_sizes cur) f
      then cur # split_chunks ideal limit [f] fs
      else split_chunks ideal limit (cur @ [f]) fs)"

fun number_packs :: "(nat \<Rightarrow> py_str) \<Rightarrow> nat \<Rightarrow> int \<Rightarrow> file_info list list \<Rightarrow> task list" where
  "number_packs uuid4 k c [] = []"
| "number_packs uuid4 k c (ch # chs) = Pack (uuid4 k) (c + 1) ch # number_packs uuid4 (Suc k) (c + 1) chs"

fun number_moves :: "(nat \<Rightarrow> py_str) \<Rightarrow> nat \<Rightarrow> file_info list \<Rightarrow> task list" where
  "number_moves uuid4 k [] = []"
| "number_moves uuid4 k (f # fs) = MoveLarge (uuid4 k) f # number_moves uuid4 (Suc k) fs"

text \<open>An attempt that times out with the stop flag clear at both checks.\<close>

definition clean_timeout :: "attempt \<Rightarrow> bool" where
  "clean_timeout a \<longleftrightarrow> \<not> stop_at_start a \<and> child a = Child_Timeout \<and> \<not> stop_after a"

text \<open>
  The listing as the specification words it: the UTF-8 bytes of each relative
  path, each followed by a single LF.
\<close>

definition spec_filelist_bytes :: "(py_str \<Rightarrow> py_str \<Rightarrow> py_str) \<Rightarrow> py_str \<Rightarrow> file_info list \<Rightarrow> nat list" where
  "spec_filelist_bytes relpath src fs =
     concat (map (\<lambda>f. concat (map utf8_char (relpath (path f) src)) @ [10]) fs)"

text \<open>
  The tasks whose chain has not ended: those of the futures in \<open>active_futures\<close>
  and those of the done-callbacks registered on delete futures.
\<close>

definition pending :: "transfer_logic \<Rightarrow> task list" where
  "pending st = map snd (active_futures st) @ map (\<lambda>(d, t, c). t) (final_callbacks st)"

text \<open>The progress values passed to the status callback so far, in order.\<close>

definition progress_values :: "transfer_logic \<Rightarrow> rat list" where
  "progress_values st = List.map_filter snd (status_calls st)"

text \<open>
  With a positive total: the values passed so far are non-decreasing and none is
  above the percentage of what is processed now.
\<close>

definition values_ok :: "(rat \<Rightarrow> rat) \<Rightarrow> transfer_logic \<Rightarrow> bool" where
  "values_ok fl st \<longleftrightarrow>
     0 < total_transfer_size st \<and> 0 \<le> processed_size st \<and> sorted (progress_values st)
     \<and> (\<forall>p \<in> set (progress_values st).
            p \<le> progress_percent fl (processed_size st) (total_transfer_size st))"

text \<open>
  What is processed, \<open>extra\<close> bytes about to be credited and the sizes of the pending
  tasks fit into the total.
\<close>

definition budget_ok :: "transfer_logic \<Rightarrow> int \<Rightarrow> bool" where
  "budget_ok st extra \<longleftrightarrow>
     (\<forall>t \<in> set (pending st). 0 \<le> task_size t)
     \<and> processed_size st + extra + sum_list (map task_size (pending st)) \<le> total_transfer_size st"

text \<open>
  The pack ids that the recovery scan reads off a listing of the cache directory,
  in the order of the listing, and the stored tasks it converts for them.
\<close>

definition listed_pack_ids :: "py_str list \<Rightarrow> int list" where
  "listed_pack_ids items =
     List.map_filter parse_pack_id
       (filter (\<lambda>item. startswith item (py ''pack_'') \<and> endswith item (py ''.7z'')) items)"

definition recovered :: "(int \<Rightarrow> task option) \<Rightarrow> py_str set \<Rightarrow> py_str list \<Rightarrow> task list" where
  "recovered m completed items =
     filter (\<lambda>t. task_id t \<notin> completed) (List.map_filter m (listed_pack_ids items))"







text \<open>
  What \<open>_load_session\<close> adds to \<open>processed_size\<close> for a completed task: the size of
  a \<open>pack\<close> or \<open>move_large\<close> task, nothing for any other type.
\<close>

definition credit :: "task \<Rightarrow> int" where
  "credit t = (case t of ResumeExtract _ _ _ \<Rightarrow> 0 | _ \<Rightarrow> task_size t)"

text \<open>
  A session as a run leaves it: no task of negative size, and not more bytes in
  the stored plan than the stored total.
\<close>

definition session_ok :: "session_data \<Rightarrow> bool" where
  "session_ok sd \<longleftrightarrow>
     list_all (\<lambda>t. 0 \<le> task_size t) (get_default [] (sd_task_plan sd))
     \<and> sum_list (map task_size (get_default [] (sd_task_plan sd)))
         \<le> get_default 0 (sd_total_transfer_size sd)"

subsection \<open>Example inputs\<close>

definition ex_logic :: transfer_logic where
  "ex_logic = init_logic (py ''C:/data'') (py ''D:/backup'') 2 64 20000 False False False"

definition ex_file :: "string \<Rightarrow> int \<Rightarrow> file_info" where
  "ex_file name sz = \<lparr> path = py ''C:/data/'' @ py name, size_bytes = sz \<rparr>"

definition ex_uuid4 :: "nat \<Rightarrow> py_str" where
  "ex_uuid4 k = py ''id-'' @ [48 + k]"

definition ex_mixed_files :: "file_info list" where
  "ex_mixed_files = [ex_file ''a'' 102400, ex_file ''big'' 524288000, ex_file ''b'' 102400,
                     ex_file ''c'' 102400]"

definition ex_oversize_logic :: transfer_logic where
  "ex_oversize_logic = init_logic (py ''C:/data'') (py ''D:/backup'') 1 1 20000 False False False"

definition ex_oversize_files :: "file_info list" where
  "ex_oversize_files = [ex_file ''a'' 2097152, ex_file ''b'' 100, ex_file ''c'' 200]"

definition ex_session :: session_data where
  "ex_session =
     \<lparr> sd_source_dir = Some (py ''C:/data''), sd_target_dir = Some (py ''D:/backup''),
       sd_total_transfer_size = Some 1000,
       sd_task_plan = Some [MoveLarge (py ''t1'') (ex_file ''big'' 700),
                            Pack (py ''t2'') 1 [ex_file ''a'' 100, ex_file ''b'' 50],
                            Pack (py ''t3'') 2 [ex_file ''c'' 150]],
       sd_completed_task_ids = Some [py ''t2'', py ''t1''] \<rparr>"

definition ex_env_timeouts :: "nat \<Rightarrow> attempt" where
  "ex_env_timeouts i = \<lparr> stop_at_start = False, child = Child_Timeout, stop_after = False \<rparr>"

definition ex_env_exit :: "nat \<Rightarrow> attempt" where
  "ex_env_exit i = \<lparr> stop_at_start = False,
                     child = (if i = 0 then Child_Timeout else Child_Exited 2),
                     stop_after = False \<rparr>"

definition ex_env_stop :: "nat \<Rightarrow> attempt" where
  "ex_env_stop i = \<lparr> stop_at_start = False,
                     child = (if i = 0 then Child_Timeout else Child_Exited 1),
                     stop_after = (i = 1) \<rparr>"

definition ex_relpath :: "py_str \<Rightarrow> py_str \<Rightarrow> py_str" where
  "ex_relpath p start = drop (Suc (length start)) p"

definition ex_pack :: task where
  "ex_pack = Pack (py ''t1'') 7 [ex_file ''a.txt'' 5, ex_file ''sub/b'' 0]"

definition ex_resume_session :: session_data where
  "ex_resume_session =
     \<lparr> sd_source_dir = Some (py ''C:/data''), sd_target_dir = Some (py ''D:/backup''),
       sd_total_transfer_size = Some 1000,
       sd_task_plan = Some [MoveLarge (py ''t1'') (ex_file ''big'' 700),
                            Pack (py ''t2'') 1 [ex_file ''a'' 100, ex_file ''b'' 50],
                            Pack (py ''t3'') 2 [ex_file ''c'' 100],
                            Pack (py ''t4'') 3 [ex_file ''d'' 50]],
       sd_completed_task_ids = Some [py ''t2''] \<rparr>"

definition ex_resume_logic :: transfer_logic where
  "ex_resume_logic = init_logic (py ''C:/data'') (py ''D:/backup'') 2 64 20000 True False False"

definition ex_cache_listing :: "py_str list" where
  "ex_cache_listing = [py ''transfer_session.json'', py ''pack_2.7z'', py ''filelist_2.txt'']"

definition ex_zero_files :: "file_info list" where
  "ex_zero_files = [ex_file ''a'' 0, ex_file ''b'' 0, ex_file ''c'' 0]"

definition ex_progress_files :: "file_info list" where
  "ex_progress_files = [ex_file ''a'' 100, ex_file ''b'' 50, ex_file ''c'' 150]"

definition ex_progress_events :: "event list" where
  "ex_progress_events =
     [MainDone 0 (Inr (PackCleanup (Some 0) [py ''pack_1.7z'', py ''filelist_1.txt''])),
      DeleteDone 0 (Inr [py ''C:/data/a'', py ''C:/data/b'']) False,
      MainDone 1 (Inl (CalledProcessError 2))]"

definition ex_plan_logic :: transfer_logic where
  "ex_plan_logic = init_logic (py ''C:/data'') (py ''D:/backup'') 2 1 20000 False False False"

definition ex_plan_files :: "file_info list" where
  "ex_plan_files = [ex_file ''a'' 600000, ex_file ''big'' 524288000, ex_file ''b'' 500000,
                    ex_file ''c'' 100, ex_file ''d'' 100, ex_file ''e'' 100]"

definition ex_copy_logic :: transfer_logic where
  "ex_copy_logic = init_logic (py ''C:/data'') (py ''D:/backup'') 2 64 20000 False True False"

definition ex_copy_events :: "event list" where
  "ex_copy_events =
     [MainDone 0 (Inr (PackCleanup None [py ''pack_1.7z'', py ''filelist_1.txt''])),
      CleanupDone 2 (Inr ()),
      MainDone 1 (Inr (PackCleanup None [py ''pack_2.7z'', py ''filelist_2.txt''])),
      CleanupDone 3 (Inr ())]"



definition ex_resume_events :: "event list" where
  "ex_resume_events =
     [MainDone 1 (Inr (LargeCleanup [py ''C:/data/big''])),
      CleanupDone 3 (Inr ()),
      MainDone 0 (Inr (PackCleanup (Some 0) [py ''pack_2.7z'', py ''filelist_2.txt''])),
      DeleteDone 0 (Inr [py ''C:/data/c'']) False,
      MainDone 2 (Inl (CalledProcessError 2))]"

section \<open>The planner: properties\<close>

lemma sum_sizes_simps [simp]:
  "sum_sizes [] = 0" "sum_sizes (f # fs) = size_bytes f + sum_sizes fs"
  "sum_sizes (xs @ ys) = sum_sizes xs + sum_sizes ys"
  by (simp_all add: sum_sizes_def)

lemma chunk_loop_split:
  "current_chunk_size s = sum_sizes (current_chunk s) \<Longrightarrow>
   s' = chunk_loop uuid4 ideal limit fs s \<Longrightarrow>
   s'' = (if current_chunk s' \<noteq> [] then seal_chunk uuid4 s' else s') \<Longrightarrow>
   plan_acc s'' = plan_acc s @ number_packs uuid4 (uuid_calls s) (pack_id_counter s)
                    (split_chunks ideal limit (current_chunk s) fs)
   \<and> uuid_calls s'' = uuid_calls s + length (split_chunks ideal limit (current_chunk s) fs)"
proof (induction fs arbitrary: s s' s'')
  case Nil
  then show ?case by (simp add: seal_chunk_def)
next
  case (Cons f fs)
  let ?s1 = "chunk_step uuid4 ideal limit s f"
  have sz: "current_chunk_size ?s1 = sum_sizes (current_chunk ?s1)"
    using Cons.prems(1) by (simp add: chunk_step_def seal_chunk_def Let_def)
  have s': "s' = chunk_loop uuid4 ideal limit fs ?s1" using Cons.prems(2) by simp
  note IH = Cons.IH[OF sz s' Cons.prems(3)]
  show ?case
  proof (cases "seal_cond ideal limit (current_chunk s) (sum_sizes (current_chunk s)) f")
    case True
    then show ?thesis using IH Cons.prems(1)
      by (simp add: chunk_step_def seal_chunk_def Let_def)
  next
    case False
    then show ?thesis using IH Cons.prems(1)
      by (simp add: chunk_step_def seal_chunk_def Let_def)
  qed
qed

lemma chunk_files_split:
  "chunk_files uuid4 ideal limit small plan k =
     (plan @ number_packs uuid4 k 0 (split_chunks ideal limit [] small),
      k + length (split_chunks ideal limit [] small))"
  using chunk_loop_split[of "\<lparr> current_chunk = [], current_chunk_size = 0, pack_id_counter = 0,
                  plan_acc = plan, uuid_calls = k \<rparr>" _ uuid4 ideal limit small, OF _ refl refl]
  by (simp add: chunk_files_def Let_def)

lemma concat_split_chunks: "concat (split_chunks ideal limit cur fs) = cur @ fs"
  by (induction fs arbitrary: cur) auto

lemma split_chunks_nonempty: "[] \<notin> set (split_chunks ideal limit cur fs)"
  by (induction fs arbitrary: cur) (auto simp: seal_cond_def)

lemma split_chunks_hd:
  "cur \<noteq> [] \<Longrightarrow> \<exists>r cs. split_chunks ideal limit cur fs = (cur @ r) # cs"
proof (induction fs arbitrary: cur)
  case Nil
  then show ?case by simp
next
  case (Cons f fs)
  show ?case
  proof (cases "seal_cond ideal limit cur (sum_sizes cur) f")
    case True
    then show ?thesis by simp
  next
    case False
    from Cons.IH[of "cur @ [f]"] obtain r cs where
      "split_chunks ideal limit (cur @ [f]) fs = ((cur @ [f]) @ r) # cs" by auto
    then have "split_chunks ideal limit (cur @ [f]) fs = (cur @ (f # r)) # cs" by simp
    then show ?thesis using False by auto
  qed
qed

lemma split_chunks_bound:
  "(length cur \<ge> 2 \<longrightarrow> sum_sizes cur \<le> limit) \<Longrightarrow>
   c \<in> set (split_chunks ideal limit cur fs) \<Longrightarrow> length c \<ge> 2 \<Longrightarrow> sum_sizes c \<le> limit"
proof (induction fs arbitrary: cur)
  case Nil
  then show ?case by (auto split: if_splits)
next
  case (Cons f fs)
  show ?case
  proof (cases "seal_cond ideal limit cur (sum_sizes cur) f")
    case True
    then show ?thesis using Cons.prems Cons.IH[of "[f]"] by auto
  next
    case False
    have "length (cur @ [f]) \<ge> 2 \<longrightarrow> sum_sizes (cur @ [f]) \<le> limit"
      using False by (cases cur) (auto simp: seal_cond_def)
    then show ?thesis using False Cons.prems Cons.IH[of "cur @ [f]"] by auto
  qed
qed

lemma number_packs_files: "map files (number_packs uuid4 k c chs) = chs"
  by (induction chs arbitrary: k c) auto

lemma number_packs_ids: "map pack_id (number_packs uuid4 k c chs) = map (\<lambda>j. c + 1 + int j) [0..<length chs]"
proof (induction chs arbitrary: k c)
  case Nil then show ?case by simp
next
  case (Cons ch chs)
  have "map (\<lambda>j. c + 1 + int j) [0..<length (ch # chs)] = (c + 1) # map (\<lambda>j. c + 1 + int j) (map Suc [0..<length chs])"
    by (simp add: upt_conv_Cons map_Suc_upt del: upt_Suc)
  then show ?case using Cons.IH[of "Suc k" "c + 1"] by (simp add: comp_def add.assoc add.commute)
qed

lemma number_packs_is_pack: "t \<in> set (number_packs uuid4 k c chs) \<Longrightarrow> is_pack t"
  by (induction chs arbitrary: k c) (auto simp: is_pack_def)

lemma split_chunks_boundary:
  "Suc i < length (split_chunks ideal limit cur fs) \<Longrightarrow>
   seal_cond ideal limit (split_chunks ideal limit cur fs ! i)
     (sum_sizes (split_chunks ideal limit cur fs ! i))
     (hd (split_chunks ideal limit cur fs ! Suc i))"
proof (induction fs arbitrary: cur i)
  case Nil
  then show ?case by (simp split: if_splits)
next
  case (Cons f fs)
  show ?case
  proof (cases "seal_cond ideal limit cur (sum_sizes cur) f")
    case True
    then have eq: "split_chunks ideal limit cur (f # fs) = cur # split_chunks ideal limit [f] fs"
      by simp
    show ?thesis
    proof (cases i)
      case 0
      obtain r cs where "split_chunks ideal limit [f] fs = ([f] @ r) # cs"
        using split_chunks_hd[of "[f]" ideal limit fs] by auto
      then show ?thesis using True eq 0 by simp
    next
      case (Suc i')
      then show ?thesis using Cons.prems Cons.IH[of i' "[f]"] eq by simp
    qed
  next
    case False
    then show ?thesis using Cons.prems Cons.IH[of i "cur @ [f]"] by simp
  qed
qed

lemma split_chunks_interior:
  "i < length (split_chunks ideal limit cur fs) \<Longrightarrow>
   0 < j \<Longrightarrow> j < length (split_chunks ideal limit cur fs ! i) \<Longrightarrow>
   (i = 0 \<and> j < length cur) \<or>
   \<not> seal_cond ideal limit (take j (split_chunks ideal limit cur fs ! i))
       (sum_sizes (take j (split_chunks ideal limit cur fs ! i)))
       (split_chunks ideal limit cur fs ! i ! j)"
proof (induction fs arbitrary: cur i)
  case Nil
  then show ?case by (simp split: if_splits)
next
  case (Cons f fs)
  show ?case
  proof (cases "seal_cond ideal limit cur (sum_sizes cur) f")
    case True
    then have eq: "split_chunks ideal limit cur (f # fs) = cur # split_chunks ideal limit [f] fs"
      by simp
    show ?thesis
    proof (cases i)
      case 0
      then show ?thesis using Cons.prems eq by simp
    next
      case (Suc i')
      then show ?thesis using Cons.prems Cons.IH[of i' "[f]"] eq by auto
    qed
  next
    case False
    then have eq: "split_chunks ideal limit cur (f # fs) = split_chunks ideal limit (cur @ [f]) fs"
      by simp
    from Cons.prems Cons.IH[of i "cur @ [f]"] eq
    consider (a) "i = 0" "j < length cur" | (b) "i = 0" "j = length cur"
      | (c) "\<not> seal_cond ideal limit (take j (split_chunks ideal limit (cur @ [f]) fs ! i))
       (sum_sizes (take j (split_chunks ideal limit (cur @ [f]) fs ! i)))
       (split_chunks ideal limit (cur @ [f]) fs ! i ! j)"
      by fastforce
    then show ?thesis
    proof cases
      case a then show ?thesis by simp
    next
      case b
      have ne: "cur \<noteq> []" using b Cons.prems by auto
      obtain r cs where h: "split_chunks ideal limit (cur @ [f]) fs = ((cur @ [f]) @ r) # cs"
        using split_chunks_hd[of "cur @ [f]" ideal limit fs] by auto
      have "take j (split_chunks ideal limit (cur @ [f]) fs ! i) = cur"
        using b h by simp
      moreover have "split_chunks ideal limit (cur @ [f]) fs ! i ! j = f"
        using b h by (simp add: nth_append)
      ultimately show ?thesis using False eq by simp
    next
      case c then show ?thesis using eq by simp
    qed
  qed
qed

lemma classify_files_eq:
  "classify_files uuid4 thr fs plan small k =
     (plan @ number_moves uuid4 k (filter (\<lambda>f. thr \<le> of_int (size_bytes f)) fs),
      small @ filter (\<lambda>f. \<not> thr \<le> of_int (size_bytes f)) fs,
      k + length (filter (\<lambda>f. thr \<le> of_int (size_bytes f)) fs))"
  by (induction fs arbitrary: plan small k) auto

lemma number_moves_props:
  "map large_file (number_moves uuid4 k fs) = fs"
  "filter is_pack (number_moves uuid4 k fs) = []"
  "filter is_move_large (number_moves uuid4 k fs) = number_moves uuid4 k fs"
  by (induction fs arbitrary: k) (auto simp: is_pack_def is_move_large_def)

lemma number_packs_props:
  "filter is_pack (number_packs uuid4 k c chs) = number_packs uuid4 k c chs"
  "filter is_move_large (number_packs uuid4 k c chs) = []"
  by (induction chs arbitrary: k c) (auto simp: is_pack_def is_move_large_def)

lemma scan_and_plan_task_plan:
  assumes "all_files \<noteq> []"
  shows "task_plan (scan_and_plan fl shuffle uuid4 all_files st) =
     (let thr = large_file_threshold fl (sum_sizes all_files) (length all_files);
          large = filter (\<lambda>f. thr \<le> of_int (size_bytes f)) all_files;
          shuffled = shuffle (filter (\<lambda>f. \<not> thr \<le> of_int (size_bytes f)) all_files)
      in task_plan st @ number_moves uuid4 0 large @
         number_packs uuid4 (length large) 0
           (split_chunks (ideal_files_per_pack (max_workers st) (chunk_file_limit st) shuffled)
              (chunk_size_limit st) [] shuffled))"
  using assms
  by (simp add: scan_and_plan_def Let_def classify_files_eq chunk_files_split status_callback_def)

lemma scan_and_plan_total:
  "total_transfer_size (scan_and_plan fl shuffle uuid4 all_files st) = sum_sizes all_files"
  by (simp add: scan_and_plan_def Let_def classify_files_eq chunk_files_split status_callback_def)

lemma ceil_div:
  fixes a w :: int
  assumes "0 < w"
  shows "(a + w - 1) div w = \<lceil>(of_int a :: rat) / of_int w\<rceil>"
proof -
  define q where "q = a div w"
  define r where "r = a mod w"
  have a: "a = w * q + r" by (simp add: q_def r_def)
  have r: "0 \<le> r" "r < w" using assms by (simp_all add: r_def)
  have c: "\<lceil>(of_int a :: rat) / of_int w\<rceil> = - ((- a) div w)"
    by (simp add: ceiling_divide_eq_div)
  have m: "(- a) div w = (if r = 0 then - q else - q - 1)"
    using assms by (simp add: zdiv_zminus1_eq_if q_def r_def)
  show ?thesis
  proof (cases "r = 0")
    case True
    have "(a + w - 1) div w = (w - 1 + q * w) div w" using a True by (simp add: algebra_simps)
    also have "\<dots> = (w - 1) div w + q" using assms by (subst div_mult_self1) simp_all
    also have "\<dots> = q" using assms by (simp add: div_pos_pos_trivial)
    finally show ?thesis using c m True by simp
  next
    case False
    have "(a + w - 1) div w = (r - 1 + (q + 1) * w) div w" using a by (simp add: algebra_simps)
    also have "\<dots> = (r - 1) div w + (q + 1)" using assms by (subst div_mult_self1) simp_all
    also have "\<dots> = q + 1" using assms r False by (simp add: div_pos_pos_trivial)
    finally show ?thesis using c m False by simp
  qed
qed

text \<open>
  Claim C2. For a non-empty scan with total size \<open>T\<close> and \<open>n\<close> files, the threshold is
  \<open>max(min((T/n) * 10, 256 MiB), 16 MiB)\<close> (each float operation rounding its exact
  result by \<open>fl\<close>), it lies between 16 MiB and 256 MiB, the \<open>move_large\<close> tasks of
  the plan are exactly the files whose size is at least the threshold, in scan
  order, and the files of the pack tasks are exactly the other files, shuffled.
\<close>

theorem C2_threshold:
  assumes "all_files \<noteq> []" and "task_plan st = []"
  shows "let thr = large_file_threshold fl (sum_sizes all_files) (length all_files);
             plan = task_plan (scan_and_plan fl shuffle uuid4 all_files st)
         in thr = max (min (fl (fl (of_int (sum_sizes all_files) / of_nat (length all_files)) * 10))
                         (256 * 1024 * 1024)) (16 * 1024 * 1024)
          \<and> 16 * 1024 * 1024 \<le> thr \<and> thr \<le> 256 * 1024 * 1024
          \<and> map large_file (filter is_move_large plan)
              = filter (\<lambda>f. thr \<le> of_int (size_bytes f)) all_files
          \<and> concat (map files (filter is_pack plan))
              = shuffle (filter (\<lambda>f. \<not> thr \<le> of_int (size_bytes f)) all_files)
          \<and> (\<forall>t \<in> set plan. is_move_large t \<or> is_pack t)"
proof -
  have thr: "large_file_threshold fl (sum_sizes all_files) (length all_files)
      = max (min (fl (fl (of_int (sum_sizes all_files) / of_nat (length all_files)) * 10))
                         (256 * 1024 * 1024)) (16 * 1024 * 1024)"
    by (simp add: large_file_threshold_def Let_def)
  have mem: "\<And>t k fs. t \<in> set (number_moves uuid4 k fs) \<Longrightarrow> is_move_large t"
    using number_moves_props(3) by (metis filter_id_conv)
  show ?thesis
    unfolding Let_def
    apply (intro conjI)
    subgoal by (rule thr)
    subgoal by (simp add: thr)
    subgoal by (simp add: thr)
    subgoal using assms
      by (simp add: scan_and_plan_task_plan Let_def number_moves_props number_packs_props)
    subgoal using assms
      by (simp add: scan_and_plan_task_plan Let_def number_moves_props number_packs_props
            number_packs_files concat_split_chunks)
    subgoal using assms
      by (auto simp: scan_and_plan_task_plan Let_def dest: mem number_packs_is_pack)
    done
qed

theorem C2_threshold_witness:
  "ex_mixed_files \<noteq> [] \<and> task_plan ex_logic = []
   \<and> large_file_threshold (\<lambda>x. x) (sum_sizes ex_mixed_files) (length ex_mixed_files) = 268435456
   \<and> map large_file (filter is_move_large
        (task_plan (scan_and_plan (\<lambda>x. x) rev ex_uuid4 ex_mixed_files ex_logic)))
       = [ex_file ''big'' 524288000]
   \<and> concat (map files (filter is_pack
        (task_plan (scan_and_plan (\<lambda>x. x) rev ex_uuid4 ex_mixed_files ex_logic))))
       = [ex_file ''c'' 102400, ex_file ''b'' 102400, ex_file ''a'' 102400]"
proof -
  have h1: "ex_mixed_files \<noteq> []" by (simp add: ex_mixed_files_def)
  have h2: "task_plan ex_logic = []" by (simp add: ex_logic_def init_logic_def)
  have t: "large_file_threshold (\<lambda>x. x) (sum_sizes ex_mixed_files) (length ex_mixed_files) = 268435456"
    by (simp add: large_file_threshold_def ex_mixed_files_def ex_file_def sum_sizes_def Let_def)
  show ?thesis
    using C2_threshold[OF h1 h2, of "\<lambda>x. x" rev ex_uuid4] h1 h2 t
    by (simp add: Let_def ex_mixed_files_def ex_file_def)
qed

lemma scan_and_plan_empty:
  "task_plan (scan_and_plan fl shuffle uuid4 [] st) = task_plan st"
  by (simp add: scan_and_plan_def Let_def status_callback_def)

text \<open>
  Claim C3. The planner walks the shuffled small files \<open>L\<close> (the files below the
  threshold) with \<open>ideal = ceil(|L| / W)\<close> for \<open>W = max_workers > 0\<close> and \<open>L\<close> not
  empty, and \<open>ideal = chunk_file_limit\<close> otherwise. Its pack tasks follow the
  \<open>move_large\<close> tasks in the plan; their file lists are non-empty and concatenate
  to \<open>L\<close>; a chunk ends before a file exactly when the sealing test holds there:
  at every boundary the chunk already holds \<open>ideal\<close> files or the next file
  would push its bytes over \<open>chunk_size_limit\<close>, and at no place inside a chunk
  does either hold. The pack ids are \<open>1, ..., N\<close> in order. An empty scan plans
  nothing.
\<close>

theorem C3_chunking:
  assumes "task_plan st = []"
  shows "(all_files = [] \<longrightarrow> task_plan (scan_and_plan fl shuffle uuid4 all_files st) = [])
    \<and> (all_files \<noteq> [] \<longrightarrow>
       (let thr = large_file_threshold fl (sum_sizes all_files) (length all_files);
            L = shuffle (filter (\<lambda>f. \<not> thr \<le> of_int (size_bytes f)) all_files);
            W = max_workers st;
            ideal = (if 0 < W \<and> L \<noteq> [] then \<lceil>(of_nat (length L) :: rat) / of_int W\<rceil>
                     else chunk_file_limit st);
            plan = task_plan (scan_and_plan fl shuffle uuid4 all_files st);
            packs = filter is_pack plan;
            chunks = map files packs
        in plan = filter is_move_large plan @ packs
         \<and> concat chunks = L
         \<and> [] \<notin> set chunks
         \<and> (\<forall>i. Suc i < length chunks \<longrightarrow>
               ideal \<le> int (length (chunks ! i))
               \<or> chunk_size_limit st < sum_sizes (chunks ! i) + size_bytes (hd (chunks ! Suc i)))
         \<and> (\<forall>i j. i < length chunks \<and> 0 < j \<and> j < length (chunks ! i) \<longrightarrow>
               int j < ideal
               \<and> sum_sizes (take j (chunks ! i)) + size_bytes (chunks ! i ! j) \<le> chunk_size_limit st)
         \<and> map pack_id packs = map int [1..<Suc (length packs)]))"
proof (intro conjI impI)
  assume "all_files = []"
  then show "task_plan (scan_and_plan fl shuffle uuid4 all_files st) = []"
    using assms by (simp add: scan_and_plan_empty)
next
  assume ne: "all_files \<noteq> []"
  define thr where "thr = large_file_threshold fl (sum_sizes all_files) (length all_files)"
  define large where "large = filter (\<lambda>f. thr \<le> of_int (size_bytes f)) all_files"
  define L where "L = shuffle (filter (\<lambda>f. \<not> thr \<le> of_int (size_bytes f)) all_files)"
  define ideal where "ideal = ideal_files_per_pack (max_workers st) (chunk_file_limit st) L"
  define limit where "limit = chunk_size_limit st"
  define chunks where "chunks = split_chunks ideal limit [] L"
  define moves where "moves = number_moves uuid4 0 large"
  define packs where "packs = number_packs uuid4 (length large) 0 chunks"
  have plan: "task_plan (scan_and_plan fl shuffle uuid4 all_files st) = moves @ packs"
    using scan_and_plan_task_plan[OF ne, of fl shuffle uuid4 st] assms
    by (simp add: Let_def thr_def large_def L_def ideal_def limit_def chunks_def moves_def packs_def)
  have fp: "filter is_pack (moves @ packs) = packs"
    by (simp add: moves_def packs_def number_moves_props number_packs_props)
  have fm: "filter is_move_large (moves @ packs) = moves"
    by (simp add: moves_def packs_def number_moves_props number_packs_props)
  have files: "map files packs = chunks" by (simp add: packs_def number_packs_files)
  have len: "length packs = length chunks" using files by (metis length_map)
  have id: "ideal = (if 0 < max_workers st \<and> L \<noteq> []
                     then \<lceil>(of_nat (length L) :: rat) / of_int (max_workers st)\<rceil>
                     else chunk_file_limit st)"
    using ceil_div[of "max_workers st" "int (length L)"]
    by (simp add: ideal_def ideal_files_per_pack_def)
  have a: "moves @ packs = moves @ packs" by simp
  have d: "concat chunks = L" by (simp add: chunks_def concat_split_chunks)
  have e: "[] \<notin> set chunks" by (simp add: chunks_def split_chunks_nonempty)
  have f: "\<forall>i. Suc i < length chunks \<longrightarrow>
          ideal \<le> int (length (chunks ! i))
          \<or> limit < sum_sizes (chunks ! i) + size_bytes (hd (chunks ! Suc i))"
    unfolding chunks_def using split_chunks_boundary[of _ ideal limit "[]" L]
    by (auto simp: seal_cond_def)
  have g: "\<forall>i j. i < length chunks \<and> 0 < j \<and> j < length (chunks ! i) \<longrightarrow>
          int j < ideal
          \<and> sum_sizes (take j (chunks ! i)) + size_bytes (chunks ! i ! j) \<le> limit"
  proof (intro allI impI)
    fix i j assume h: "i < length chunks \<and> 0 < j \<and> j < length (chunks ! i)"
    have "\<not> seal_cond ideal limit (take j (chunks ! i)) (sum_sizes (take j (chunks ! i)))
              (chunks ! i ! j)"
      using split_chunks_interior[of i ideal limit "[]" L j] h by (simp add: chunks_def)
    moreover have "take j (chunks ! i) \<noteq> []" using h by auto
    moreover have "length (take j (chunks ! i)) = j" using h by simp
    ultimately show "int j < ideal
          \<and> sum_sizes (take j (chunks ! i)) + size_bytes (chunks ! i ! j) \<le> limit"
      by (simp add: seal_cond_def)
  qed
  have i: "map pack_id packs = map int [1..<Suc (length packs)]"
  proof -
    have "map pack_id packs = map (\<lambda>j. 0 + 1 + int j) [0..<length chunks]"
      by (simp add: packs_def number_packs_ids)
    also have "\<dots> = map int (map Suc [0..<length chunks])" by (simp add: comp_def)
    also have "map Suc [0..<length chunks] = [1..<Suc (length chunks)]"
      by (simp add: map_Suc_upt del: upt_Suc)
    finally show ?thesis using len by simp
  qed
  show "let thr = large_file_threshold fl (sum_sizes all_files) (length all_files);
            L = shuffle (filter (\<lambda>f. \<not> thr \<le> of_int (size_bytes f)) all_files);
            W = max_workers st;
            ideal = (if 0 < W \<and> L \<noteq> [] then \<lceil>(of_nat (length L) :: rat) / of_int W\<rceil>
                     else chunk_file_limit st);
            plan = task_plan (scan_and_plan fl shuffle uuid4 all_files st);
            packs = filter is_pack plan;
            chunks = map files packs
        in plan = filter is_move_large plan @ packs
         \<and> concat chunks = L
         \<and> [] \<notin> set chunks
         \<and> (\<forall>i. Suc i < length chunks \<longrightarrow>
               ideal \<le> int (length (chunks ! i))
               \<or> chunk_size_limit st < sum_sizes (chunks ! i) + size_bytes (hd (chunks ! Suc i)))
         \<and> (\<forall>i j. i < length chunks \<and> 0 < j \<and> j < length (chunks ! i) \<longrightarrow>
               int j < ideal
               \<and> sum_sizes (take j (chunks ! i)) + size_bytes (chunks ! i ! j) \<le> chunk_size_limit st)
         \<and> map pack_id packs = map int [1..<Suc (length packs)]"
    unfolding Let_def thr_def[symmetric] L_def[symmetric] id[symmetric] limit_def[symmetric]
      plan fp fm files
    by (intro conjI a d e f g i)
qed

theorem C3_chunking_witness:
  "task_plan ex_plan_logic = [] \<and> ex_plan_files \<noteq> []
   \<and> max_workers ex_plan_logic = 2 \<and> chunk_size_limit ex_plan_logic = 1048576
   \<and> \<lceil>(of_nat 5 :: rat) / of_int 2\<rceil> = 3
   \<and> map files (filter is_pack
        (task_plan (scan_and_plan (\<lambda>x. x) (\<lambda>xs. xs) ex_uuid4 ex_plan_files ex_plan_logic)))
       = [[ex_file ''a'' 600000], [ex_file ''b'' 500000, ex_file ''c'' 100, ex_file ''d'' 100],
          [ex_file ''e'' 100]]
   \<and> map pack_id (filter is_pack
        (task_plan (scan_and_plan (\<lambda>x. x) (\<lambda>xs. xs) ex_uuid4 ex_plan_files ex_plan_logic)))
       = [1, 2, 3]"
proof -
  let ?plan = "task_plan (scan_and_plan (\<lambda>x. x) (\<lambda>xs. xs) ex_uuid4 ex_plan_files ex_plan_logic)"
  have h: "task_plan ex_plan_logic = []"
    by (simp add: ex_plan_logic_def init_logic_def)
  have ne: "ex_plan_files \<noteq> []" by (simp add: ex_plan_files_def)
  have cfg: "max_workers ex_plan_logic = 2 \<and> chunk_size_limit ex_plan_logic = 1048576"
    by (simp add: ex_plan_logic_def init_logic_def)
  have thr: "large_file_threshold (\<lambda>x. x) (sum_sizes ex_plan_files) (length ex_plan_files)
      = 268435456"
    by (simp add: large_file_threshold_def ex_plan_files_def ex_file_def Let_def)
  have c: "map files (filter is_pack ?plan)
       = [[ex_file ''a'' 600000], [ex_file ''b'' 500000, ex_file ''c'' 100, ex_file ''d'' 100],
          [ex_file ''e'' 100]]"
    unfolding scan_and_plan_task_plan[OF ne] Let_def thr
    by (simp add: ex_plan_files_def ex_file_def ex_plan_logic_def init_logic_def
          ideal_files_per_pack_def seal_cond_def is_pack_def)
  have l: "length (filter is_pack ?plan) = 3"
  proof -
    have "length (map files (filter is_pack ?plan)) = 3" by (simp only: c) simp
    then show ?thesis by simp
  qed
  note th = C3_chunking[OF h, of ex_plan_files "\<lambda>x. x" "\<lambda>xs. xs" ex_uuid4, unfolded Let_def]
  have "map pack_id (filter is_pack ?plan) = map int [1..<Suc (length (filter is_pack ?plan))]"
    using conjunct2[OF th, THEN mp, OF ne] by (elim conjE)
  then have ids: "map pack_id (filter is_pack ?plan) = [1, 2, 3]"
    by (simp add: l upt_rec)
  have ce: "\<lceil>(of_nat 5 :: rat) / of_int 2\<rceil> = 3" by (simp add: ceiling_eq_iff)
  show ?thesis using h ne cfg c ids ce by simp
qed

text \<open>
  Claim C10. Every pack task that the planner produces has at least one file; a
  pack whose bytes exceed \<open>chunk_size_limit\<close> has exactly one file, and a pack of
  two or more files has at most \<open>chunk_size_limit\<close> bytes.
\<close>

theorem C10_pack_bounds:
  assumes "task_plan st = []"
  shows "\<forall>t \<in> set (task_plan (scan_and_plan fl shuffle uuid4 all_files st)).
           is_pack t \<longrightarrow>
             files t \<noteq> []
           \<and> (chunk_size_limit st < sum_sizes (files t) \<longrightarrow> length (files t) = 1)
           \<and> (2 \<le> length (files t) \<longrightarrow> sum_sizes (files t) \<le> chunk_size_limit st)"
proof (cases "all_files = []")
  case True
  then show ?thesis using assms by (simp add: scan_and_plan_empty)
next
  case False
  define thr where "thr = large_file_threshold fl (sum_sizes all_files) (length all_files)"
  define large where "large = filter (\<lambda>f. thr \<le> of_int (size_bytes f)) all_files"
  define shuffled where "shuffled = shuffle (filter (\<lambda>f. \<not> thr \<le> of_int (size_bytes f)) all_files)"
  define chunks where "chunks = split_chunks
      (ideal_files_per_pack (max_workers st) (chunk_file_limit st) shuffled)
      (chunk_size_limit st) [] shuffled"
  have plan: "task_plan (scan_and_plan fl shuffle uuid4 all_files st)
      = number_moves uuid4 0 large @ number_packs uuid4 (length large) 0 chunks"
    using False assms
    by (simp add: scan_and_plan_task_plan Let_def thr_def large_def shuffled_def chunks_def)
  have moves: "\<And>t. t \<in> set (number_moves uuid4 0 large) \<Longrightarrow> \<not> is_pack t"
    using number_moves_props(2)[of uuid4 0 large] by (simp add: filter_empty_conv)
  have packs: "\<And>t. t \<in> set (number_packs uuid4 (length large) 0 chunks) \<Longrightarrow> files t \<in> set chunks"
  proof -
    fix t assume "t \<in> set (number_packs uuid4 (length large) 0 chunks)"
    then have "files t \<in> set (map files (number_packs uuid4 (length large) 0 chunks))" by simp
    then show "files t \<in> set chunks" by (simp only: number_packs_files)
  qed
  have ne: "\<And>c. c \<in> set chunks \<Longrightarrow> c \<noteq> []"
    using split_chunks_nonempty unfolding chunks_def by metis
  have bd: "\<And>c. c \<in> set chunks \<Longrightarrow> 2 \<le> length c \<Longrightarrow> sum_sizes c \<le> chunk_size_limit st"
    unfolding chunks_def by (rule split_chunks_bound[where cur = "[]"]) simp_all
  have one: "\<And>c. c \<in> set chunks \<Longrightarrow> chunk_size_limit st < sum_sizes c \<Longrightarrow> length c = 1"
  proof -
    fix c assume c: "c \<in> set chunks" "chunk_size_limit st < sum_sizes c"
    have "\<not> 2 \<le> length c" using bd[OF c(1)] c(2) by auto
    moreover have "c \<noteq> []" using ne[OF c(1)] .
    then have "0 < length c" by simp
    ultimately show "length c = 1" by linarith
  qed
  show ?thesis
    unfolding plan using moves packs ne bd one by auto
qed

theorem C10_pack_bounds_witness:
  "task_plan ex_oversize_logic = []
   \<and> map (\<lambda>t. (is_pack t, length (files t), sum_sizes (files t), chunk_size_limit ex_oversize_logic))
       (task_plan (scan_and_plan (\<lambda>x. x) (\<lambda>xs. xs) ex_uuid4 ex_oversize_files ex_oversize_logic))
     = [(True, 1, 2097152, 1048576), (True, 2, 300, 1048576)]"
proof -
  have h: "task_plan ex_oversize_logic = []"
    by (simp add: ex_oversize_logic_def init_logic_def)
  have ne: "ex_oversize_files \<noteq> []" by (simp add: ex_oversize_files_def)
  have thr: "large_file_threshold (\<lambda>x. x) (sum_sizes ex_oversize_files) (length ex_oversize_files)
      = 16777216"
    by (simp add: large_file_threshold_def ex_oversize_files_def ex_file_def Let_def)
  have p: "map (\<lambda>t. (is_pack t, length (files t), sum_sizes (files t), chunk_size_limit ex_oversize_logic))
       (task_plan (scan_and_plan (\<lambda>x. x) (\<lambda>xs. xs) ex_uuid4 ex_oversize_files ex_oversize_logic))
     = [(True, 1, 2097152, 1048576), (True, 2, 300, 1048576)]"
    unfolding scan_and_plan_task_plan[OF ne] Let_def thr
    by (simp add: ex_oversize_files_def ex_file_def ex_oversize_logic_def init_logic_def
          ideal_files_per_pack_def seal_cond_def is_pack_def)
  show ?thesis
    using C10_pack_bounds[OF h, of "\<lambda>x. x" "\<lambda>xs. xs" ex_uuid4 ex_oversize_files] h p by simp
qed

section \<open>The session store: properties\<close>

lemma load_tasks_fields:
  "completed_task_ids (load_tasks ts st) = completed_task_ids st"
  "total_transfer_size (load_tasks ts st) = total_transfer_size st"
  by (induction ts arbitrary: st) (auto split: task.splits)

lemma load_tasks_plan:
  "task_plan (load_tasks ts st)
     = task_plan st @ filter (\<lambda>t. task_id t \<notin> completed_task_ids st) ts"
  by (induction ts arbitrary: st) (auto simp: load_tasks_fields split: task.splits)

lemma load_tasks_processed:
  "\<forall>t \<in> set ts. is_pack t \<or> is_move_large t \<Longrightarrow>
   processed_size (load_tasks ts st)
     = processed_size st
       + sum_list (map task_size (filter (\<lambda>t. task_id t \<in> completed_task_ids st) ts))"
  by (induction ts arbitrary: st)
     (auto simp: load_tasks_fields task_size_def is_pack_def is_move_large_def split: task.splits)

lemma load_session_rejected:
  "\<not> fst (load_session fl sf st) \<Longrightarrow> snd (load_session fl sf st) = st"
  by (auto simp: load_session_def Let_def split: option.splits if_splits)

lemma resume_phase_rejected:
  assumes "resume_session st"
    "\<not> fst (load_session fl sf (status_callback Msg_resuming None st))"
  shows "resume_phase fl sf st
       = (status_callback Msg_resuming None st)
           \<lparr> resume_session := False, task_plan := [], total_transfer_size := 0,
             processed_size := 0 \<rparr>"
proof -
  obtain ok st' where l: "load_session fl sf (status_callback Msg_resuming None st) = (ok, st')"
    by (cases "load_session fl sf (status_callback Msg_resuming None st)")
  have "\<not> ok" using assms(2) l by simp
  moreover have "st' = status_callback Msg_resuming None st"
    using load_session_rejected[OF assms(2)] l by simp
  ultimately show ?thesis using assms(1) l by (simp add: resume_phase_def)
qed

lemma run_load_rejected:
  assumes "\<not> stop_event st" "resume_session st"
    "\<not> fst (load_session fl sf (status_callback Msg_resuming None st))"
  shows "run fl shuffle uuid4 all_files sf listing evs st
       = run fl shuffle uuid4 all_files sf listing evs
           ((status_callback Msg_resuming None st)
              \<lparr> resume_session := False, task_plan := [], total_transfer_size := 0,
                processed_size := 0 \<rparr>)"
  using assms(1)
  by (simp add: run_def resume_phase_rejected[OF assms(2,3)])
     (simp add: resume_phase_def status_callback_def)

text \<open>
  Claim C1. With a session file that parses: when its source or target
  directory differs from the configured one, \<open>_load_session\<close> returns \<open>False\<close>
  and changes nothing (and \<open>run\<close> then plans afresh); otherwise it returns
  \<open>True\<close>, the active plan is the stored plan without the tasks whose id is in
  \<open>completed_task_ids\<close>, in order, and \<open>processed_size\<close> is the sum of the byte
  sizes of the stored tasks whose id is in that set. The stored tasks are of
  type \<open>pack\<close> or \<open>move_large\<close>, the types a session file holds.
\<close>

theorem C1_load_session:
  assumes "\<forall>t \<in> set (get_default [] (sd_task_plan sd)). is_pack t \<or> is_move_large t"
  shows "let stored = get_default [] (sd_task_plan sd);
             completed = set (get_default [] (sd_completed_task_ids sd));
             ok = fst (load_session fl (Some sd) st);
             st' = snd (load_session fl (Some sd) st)
         in (sd_source_dir sd \<noteq> Some (source_dir st) \<or> sd_target_dir sd \<noteq> Some (target_dir st)
               \<longrightarrow> \<not> ok \<and> st' = st
                 \<and> (\<not> stop_event st \<and> resume_session st \<longrightarrow>
                      run fl shuffle uuid4 all_files (Some sd) listing evs st
                      = run fl shuffle uuid4 all_files (Some sd) listing evs
                          ((status_callback Msg_resuming None st)
                             \<lparr> resume_session := False, task_plan := [],
                               total_transfer_size := 0, processed_size := 0 \<rparr>)))
          \<and> (sd_source_dir sd = Some (source_dir st) \<and> sd_target_dir sd = Some (target_dir st)
               \<longrightarrow> ok
                 \<and> completed_task_ids st' = completed
                 \<and> task_plan st' = filter (\<lambda>t. task_id t \<notin> completed) stored
                 \<and> (\<forall>t \<in> set stored. task_id t \<in> completed \<longrightarrow> t \<notin> set (task_plan st'))
                 \<and> (\<forall>t \<in> set stored. task_id t \<notin> completed \<longrightarrow> t \<in> set (task_plan st'))
                 \<and> processed_size st'
                     = sum_list (map task_size (filter (\<lambda>t. task_id t \<in> completed) stored))
                 \<and> total_transfer_size st' = get_default 0 (sd_total_transfer_size sd))"
proof -
  have rej: "sd_source_dir sd \<noteq> Some (source_dir st) \<or> sd_target_dir sd \<noteq> Some (target_dir st)
      \<Longrightarrow> \<not> fst (load_session fl (Some sd) (status_callback Msg_resuming None st))"
    by (auto simp: load_session_def status_callback_def)
  have a: "sd_source_dir sd \<noteq> Some (source_dir st) \<or> sd_target_dir sd \<noteq> Some (target_dir st)
      \<longrightarrow> \<not> fst (load_session fl (Some sd) st) \<and> snd (load_session fl (Some sd) st) = st
        \<and> (\<not> stop_event st \<and> resume_session st \<longrightarrow>
                      run fl shuffle uuid4 all_files (Some sd) listing evs st
                      = run fl shuffle uuid4 all_files (Some sd) listing evs
                          ((status_callback Msg_resuming None st)
                             \<lparr> resume_session := False, task_plan := [],
                               total_transfer_size := 0, processed_size := 0 \<rparr>))"
    using run_load_rejected[OF _ _ rej] by (auto simp: load_session_def)
  have b: "sd_source_dir sd = Some (source_dir st) \<and> sd_target_dir sd = Some (target_dir st)
      \<longrightarrow> fst (load_session fl (Some sd) st)
        \<and> completed_task_ids (snd (load_session fl (Some sd) st))
            = set (get_default [] (sd_completed_task_ids sd))
        \<and> task_plan (snd (load_session fl (Some sd) st))
            = filter (\<lambda>t. task_id t \<notin> set (get_default [] (sd_completed_task_ids sd)))
                (get_default [] (sd_task_plan sd))
        \<and> processed_size (snd (load_session fl (Some sd) st))
            = sum_list (map task_size
                (filter (\<lambda>t. task_id t \<in> set (get_default [] (sd_completed_task_ids sd)))
                   (get_default [] (sd_task_plan sd))))
        \<and> total_transfer_size (snd (load_session fl (Some sd) st))
            = get_default 0 (sd_total_transfer_size sd)"
    using assms
    by (simp add: load_session_def Let_def load_tasks_plan load_tasks_processed
          load_tasks_fields status_callback_def)
  show ?thesis unfolding Let_def using a b by auto
qed

theorem C1_load_session_witness:
  "list_all (\<lambda>t. is_pack t \<or> is_move_large t) (get_default [] (sd_task_plan ex_session))
   \<and> sd_source_dir ex_session = Some (source_dir ex_logic)
   \<and> sd_target_dir ex_session = Some (target_dir ex_logic)
   \<and> fst (load_session (\<lambda>x. x) (Some ex_session) ex_logic)
   \<and> task_plan (snd (load_session (\<lambda>x. x) (Some ex_session) ex_logic))
       = [Pack (py ''t3'') 2 [ex_file ''c'' 150]]
   \<and> processed_size (snd (load_session (\<lambda>x. x) (Some ex_session) ex_logic)) = 850"
proof -
  have h: "\<forall>t \<in> set (get_default [] (sd_task_plan ex_session)). is_pack t \<or> is_move_large t"
    by (simp add: ex_session_def get_default_def is_pack_def is_move_large_def)
  have s: "sd_source_dir ex_session = Some (source_dir ex_logic)"
     "sd_target_dir ex_session = Some (target_dir ex_logic)"
    by (simp_all add: ex_session_def ex_logic_def init_logic_def)
  have c: "get_default [] (sd_completed_task_ids ex_session) = [py ''t2'', py ''t1'']"
     "get_default [] (sd_task_plan ex_session) = [MoveLarge (py ''t1'') (ex_file ''big'' 700),
                            Pack (py ''t2'') 1 [ex_file ''a'' 100, ex_file ''b'' 50],
                            Pack (py ''t3'') 2 [ex_file ''c'' 150]]"
    by (simp_all add: ex_session_def get_default_def)
  note th = C1_load_session[OF h, of "\<lambda>x. x" ex_logic, unfolded Let_def, THEN conjunct2, rule_format, OF conjI[OF s]]
  show ?thesis using th h s
    by (simp add: c py_def task_size_def ex_file_def list_all_iff)
qed

section \<open>The archiver supervisor: properties\<close>

declare run_command_loop.simps [simp del]

lemma loop_skip_one:
  assumes "clean_timeout (env i)" "int (Suc i) < retries"
  shows "run_command_loop env retries i =
          (case run_command_loop env retries (Suc i) of (r, n, k) \<Rightarrow> (r, n, Suc k))"
  using assms by (subst run_command_loop.simps) (auto simp: clean_timeout_def)

lemma loop_last_timeout:
  assumes "clean_timeout (env i)" "int (Suc i) = retries"
  shows "run_command_loop env retries i = (Raised TimeoutExpired, Suc i, 1)"
  using assms by (subst run_command_loop.simps) (auto simp: clean_timeout_def)

lemma loop_skip:
  assumes "\<forall>i'. i \<le> i' \<and> i' < j \<longrightarrow> clean_timeout (env i')" "int j < retries" "i \<le> j"
  shows "run_command_loop env retries i =
          (case run_command_loop env retries j of (r, n, k) \<Rightarrow> (r, n, k + (j - i)))"
  using assms
proof (induction "j - i" arbitrary: i)
  case 0
  then show ?case by (auto split: prod.splits)
next
  case (Suc d)
  have i: "clean_timeout (env i)" "int (Suc i) < retries" using Suc.prems Suc.hyps(2) by auto
  have "run_command_loop env retries (Suc i) =
          (case run_command_loop env retries j of (r, n, k) \<Rightarrow> (r, n, k + (j - Suc i)))"
    using Suc.hyps(1)[of "Suc i"] Suc.prems Suc.hyps(2) by auto
  then show ?case using loop_skip_one[of env i retries, OF i] Suc.hyps(2) by (auto split: prod.splits)
qed

lemma loop_bounds:
  "run_command_loop env retries i = (r, n, k) \<Longrightarrow>
   i \<le> n \<and> (int i \<le> retries \<longrightarrow> int n \<le> retries) \<and> k \<le> n - i"
proof (induction env retries i arbitrary: r n k rule: run_command_loop.induct)
  case (1 env retries i)
  show ?case
  proof (cases "\<not> int i \<ge> retries \<and> \<not> stop_at_start (env i) \<and> child (env i) = Child_Timeout
                 \<and> \<not> stop_after (env i) \<and> int i \<noteq> retries - 1")
    case True
    obtain r' n' k' where rec: "run_command_loop env retries (Suc i) = (r', n', k')"
      by (cases "run_command_loop env retries (Suc i)") auto
    have "Suc i \<le> n' \<and> (int (Suc i) \<le> retries \<longrightarrow> int n' \<le> retries) \<and> k' \<le> n' - Suc i"
      using "1.IH"[OF _ _ _ _ _ rec] True by auto
    moreover have "(r, n, k) = (r', n', Suc k')"
      using "1.prems" True rec by (subst (asm) run_command_loop.simps) auto
    ultimately show ?thesis using True by auto
  next
    case False
    then show ?thesis using "1.prems"
      by (subst (asm) run_command_loop.simps) (auto split: if_splits child_outcome.splits)
  qed
qed

lemma loop_retry_only_on_timeout:
  "run_command_loop env retries i = (r, n, k) \<Longrightarrow> i \<le> j \<Longrightarrow> Suc j < n \<Longrightarrow> clean_timeout (env j)"
proof (induction env retries i arbitrary: r n k rule: run_command_loop.induct)
  case (1 env retries i)
  show ?case
  proof (cases "\<not> int i \<ge> retries \<and> \<not> stop_at_start (env i) \<and> child (env i) = Child_Timeout
                 \<and> \<not> stop_after (env i) \<and> int i \<noteq> retries - 1")
    case True
    obtain r' n' k' where rec: "run_command_loop env retries (Suc i) = (r', n', k')"
      by (cases "run_command_loop env retries (Suc i)") auto
    have eq: "(r, n, k) = (r', n', Suc k')"
      using "1.prems"(1) True rec by (subst (asm) run_command_loop.simps) auto
    show ?thesis
    proof (cases "j = i")
      case True': True
      then show ?thesis using True by (simp add: clean_timeout_def)
    next
      case False
      then have "Suc i \<le> j" using "1.prems"(2) by simp
      then show ?thesis using "1.IH"[OF _ _ _ _ _ rec] True eq "1.prems"(3) by auto
    qed
  next
    case False
    then have "n \<le> Suc i" using "1.prems"(1)
      by (subst (asm) run_command_loop.simps) (auto split: if_splits child_outcome.splits)
    then show ?thesis using "1.prems" by simp
  qed
qed

lemma loop_timeout_raised:
  "run_command_loop env retries i = (Raised TimeoutExpired, n, k) \<Longrightarrow>
   int i < retries \<and> int n = retries \<and> k = n - i \<and> (\<forall>j. i \<le> j \<and> j < n \<longrightarrow> clean_timeout (env j))"
proof (induction env retries i arbitrary: n k rule: run_command_loop.induct)
  case (1 env retries i)
  show ?case
  proof (cases "\<not> int i \<ge> retries \<and> \<not> stop_at_start (env i) \<and> child (env i) = Child_Timeout
                 \<and> \<not> stop_after (env i) \<and> int i \<noteq> retries - 1")
    case True
    obtain r' n' k' where rec: "run_command_loop env retries (Suc i) = (r', n', k')"
      by (cases "run_command_loop env retries (Suc i)") auto
    have eq: "r' = Raised TimeoutExpired" "n = n'" "k = Suc k'"
      using "1.prems"(1) True rec by (subst (asm) run_command_loop.simps, auto)+
    have IH: "int (Suc i) < retries \<and> int n' = retries \<and> k' = n' - Suc i
         \<and> (\<forall>j. Suc i \<le> j \<and> j < n' \<longrightarrow> clean_timeout (env j))"
      using "1.IH"[OF _ _ _ _ _ rec[unfolded eq(1)]] True by auto
    have "\<forall>j. i \<le> j \<and> j < n \<longrightarrow> clean_timeout (env j)"
    proof (intro allI impI)
      fix j assume "i \<le> j \<and> j < n"
      then show "clean_timeout (env j)"
        using IH eq(2) True by (cases "j = i") (auto simp: clean_timeout_def)
    qed
    then show ?thesis using IH eq True by auto
  next
    case False
    then have sh: "n = Suc i \<and> k = 1 \<and> clean_timeout (env i) \<and> int i = retries - 1"
      using "1.prems"
      by (subst (asm) run_command_loop.simps)
         (auto split: if_splits child_outcome.splits simp: clean_timeout_def)
    have "\<forall>j. i \<le> j \<and> j < n \<longrightarrow> clean_timeout (env j)"
    proof (intro allI impI)
      fix j assume "i \<le> j \<and> j < n"
      then have "j = i" using sh by linarith
      then show "clean_timeout (env j)" using sh by simp
    qed
    then show ?thesis using sh by auto
  qed
qed

text \<open>
  Claim C7. \<open>_run_command_with_retry\<close> starts at most \<open>retries\<close> attempts (3 by
  default), and a further attempt only after an attempt that timed out with the
  stop flag clear; it raises the timeout exactly when all \<open>retries\<close> attempts
  timed out so, having killed the child each time; a non-zero exit in the first
  attempt that does not time out is raised at once, with no attempt after it; and
  when the stop flag is seen set, at the start of an attempt or after the child
  ended or timed out, the call returns \<open>None\<close>.
\<close>

theorem C7_retry_on_timeout_only:
  "let r = fst (run_command_with_retry env retries);
       n = fst (snd (run_command_with_retry env retries));
       k = snd (snd (run_command_with_retry env retries))
   in int n \<le> max retries 0 \<and> k \<le> n
    \<and> (\<forall>j. Suc j < n \<longrightarrow> clean_timeout (env j))
    \<and> (r = Raised TimeoutExpired
         \<longleftrightarrow> 0 < retries \<and> (\<forall>j. int j < retries \<longrightarrow> clean_timeout (env j)))
    \<and> (r = Raised TimeoutExpired \<longrightarrow> int n = retries \<and> k = n)
    \<and> (\<forall>j rc. int j < retries \<and> (\<forall>i<j. clean_timeout (env i)) \<and> \<not> stop_at_start (env j)
            \<and> child (env j) = Child_Exited rc \<and> rc \<noteq> 0 \<and> \<not> stop_after (env j)
          \<longrightarrow> r = Raised (CalledProcessError rc) \<and> n = Suc j)
    \<and> (\<forall>j. int j < retries \<and> (\<forall>i<j. clean_timeout (env i))
            \<and> (stop_at_start (env j) \<or> (child (env j) \<noteq> Popen_Failed \<and> stop_after (env j)))
          \<longrightarrow> r = Returned_None)"
proof -
  obtain r n k where res: "run_command_loop env retries 0 = (r, n, k)"
    by (cases "run_command_loop env retries 0") auto
  have skip: "\<And>j. int j < retries \<Longrightarrow> \<forall>i<j. clean_timeout (env i) \<Longrightarrow>
      (r, n, k) = (case run_command_loop env retries j of (r, n, k) \<Rightarrow> (r, n, k + j))"
    using loop_skip[of 0 _ env retries] res by auto
  have a: "int n \<le> max retries 0 \<and> k \<le> n"
  proof (cases "0 \<le> retries")
    case True
    then show ?thesis using loop_bounds[OF res] by auto
  next
    case False
    then have "run_command_loop env retries 0 = (Returned_None, 0, 0)"
      by (subst run_command_loop.simps) simp
    then show ?thesis using res by simp
  qed
  have b: "\<forall>j. Suc j < n \<longrightarrow> clean_timeout (env j)"
    using loop_retry_only_on_timeout[OF res] by auto
  have c1: "r = Raised TimeoutExpired \<longrightarrow>
      0 < retries \<and> (\<forall>j. int j < retries \<longrightarrow> clean_timeout (env j)) \<and> int n = retries \<and> k = n"
  proof
    assume "r = Raised TimeoutExpired"
    then have "int 0 < retries \<and> int n = retries \<and> k = n - 0
        \<and> (\<forall>j. 0 \<le> j \<and> j < n \<longrightarrow> clean_timeout (env j))"
      using loop_timeout_raised[of env retries 0 n k] res by simp
    then show "0 < retries \<and> (\<forall>j. int j < retries \<longrightarrow> clean_timeout (env j)) \<and> int n = retries \<and> k = n"
      by auto
  qed
  have c2: "0 < retries \<and> (\<forall>j. int j < retries \<longrightarrow> clean_timeout (env j)) \<longrightarrow> r = Raised TimeoutExpired"
  proof
    assume h: "0 < retries \<and> (\<forall>j. int j < retries \<longrightarrow> clean_timeout (env j))"
    define j where "j = nat (retries - 1)"
    have j: "int j < retries" "int (Suc j) = retries" using h by (auto simp: j_def)
    have "\<forall>i<j. clean_timeout (env i)" using h j by auto
    from skip[OF j(1) this] loop_last_timeout[of env j retries] h j
    show "r = Raised TimeoutExpired" by auto
  qed
  have d: "\<forall>j rc. int j < retries \<and> (\<forall>i<j. clean_timeout (env i)) \<and> \<not> stop_at_start (env j)
            \<and> child (env j) = Child_Exited rc \<and> rc \<noteq> 0 \<and> \<not> stop_after (env j)
          \<longrightarrow> r = Raised (CalledProcessError rc) \<and> n = Suc j"
  proof (intro allI impI)
    fix j rc
    assume h: "int j < retries \<and> (\<forall>i<j. clean_timeout (env i)) \<and> \<not> stop_at_start (env j)
            \<and> child (env j) = Child_Exited rc \<and> rc \<noteq> 0 \<and> \<not> stop_after (env j)"
    have "run_command_loop env retries j = (Raised (CalledProcessError rc), Suc j, 0)"
      using h by (subst run_command_loop.simps) auto
    then show "r = Raised (CalledProcessError rc) \<and> n = Suc j"
      using skip[of j] h by auto
  qed
  have e: "\<forall>j. int j < retries \<and> (\<forall>i<j. clean_timeout (env i))
            \<and> (stop_at_start (env j) \<or> (child (env j) \<noteq> Popen_Failed \<and> stop_after (env j)))
          \<longrightarrow> r = Returned_None"
  proof (intro allI impI)
    fix j
    assume h: "int j < retries \<and> (\<forall>i<j. clean_timeout (env i))
            \<and> (stop_at_start (env j) \<or> (child (env j) \<noteq> Popen_Failed \<and> stop_after (env j)))"
    have "fst (run_command_loop env retries j) = Returned_None"
      using h by (subst run_command_loop.simps) (auto split: child_outcome.splits)
    then show "r = Returned_None"
      using skip[of j] h by (auto split: prod.splits)
  qed
  show ?thesis
    unfolding Let_def run_command_with_retry_def res fst_conv snd_conv
    using a b c1 c2 d e by blast
qed

theorem C7_retry_on_timeout_only_witness:
  "(0::int) < 3
   \<and> clean_timeout (ex_env_timeouts 0) \<and> clean_timeout (ex_env_timeouts 1)
   \<and> clean_timeout (ex_env_timeouts 2)
   \<and> run_command_with_retry ex_env_timeouts 3 = (Raised TimeoutExpired, 3, 3)
   \<and> run_command_with_retry ex_env_exit 3 = (Raised (CalledProcessError 2), 2, 1)
   \<and> run_command_with_retry ex_env_stop 3 = (Returned_None, 2, 1)"
proof -
  have ct: "\<And>j. clean_timeout (ex_env_timeouts j)"
    by (simp add: clean_timeout_def ex_env_timeouts_def)
  note th = C7_retry_on_timeout_only[of ex_env_timeouts 3, unfolded Let_def]
  have r: "fst (run_command_with_retry ex_env_timeouts 3) = Raised TimeoutExpired"
    using th ct by simp
  then have nk: "int (fst (snd (run_command_with_retry ex_env_timeouts 3))) = 3"
      "snd (snd (run_command_with_retry ex_env_timeouts 3))
         = fst (snd (run_command_with_retry ex_env_timeouts 3))"
    using th by simp_all
  have t: "run_command_with_retry ex_env_timeouts 3 = (Raised TimeoutExpired, 3, 3)"
    using r nk by (cases "run_command_with_retry ex_env_timeouts 3") auto
  have x: "run_command_with_retry ex_env_exit 3 = (Raised (CalledProcessError 2), 2, 1)"
    by (simp add: run_command_with_retry_def run_command_loop.simps ex_env_exit_def)
  have s: "run_command_with_retry ex_env_stop 3 = (Returned_None, 2, 1)"
    by (simp add: run_command_with_retry_def run_command_loop.simps ex_env_stop_def)
  show ?thesis using ct t x s by simp
qed

section \<open>The file listing: properties\<close>

lemma translate_newlines_append:
  "translate_newlines os (xs @ ys) = translate_newlines os xs @ translate_newlines os ys"
  by (simp add: translate_newlines_def)

lemma translate_newlines_no_lf:
  "10 \<notin> set xs \<Longrightarrow> translate_newlines os xs = xs"
  by (induction xs) (auto simp: translate_newlines_def)

lemma translate_newlines_lf: "translate_newlines os (10 # xs) = os_linesep os @ translate_newlines os xs"
  by (simp add: translate_newlines_def)

lemma utf8_lines:
  "concat (map utf8_char (concat (map (\<lambda>f. g f @ os_linesep os) fs)))
     = concat (map (\<lambda>f. concat (map utf8_char (g f)) @ os_linesep os) fs)"
proof (induction fs)
  case Nil
  then show ?case by simp
next
  case (Cons f fs)
  have "concat (map utf8_char (os_linesep os)) = os_linesep os"
    by (cases os) (simp_all add: os_linesep_def utf8_char_def)
  then show ?case using Cons by simp
qed

lemma encodable_linesep: "list_all encodable (os_linesep os)"
  by (cases os) (simp_all add: os_linesep_def encodable_def)

lemma filelist_text_translated:
  "\<forall>f \<in> set fs. 10 \<notin> set (relpath (path f) src) \<Longrightarrow>
   translate_newlines os (filelist_text relpath src fs)
     = concat (map (\<lambda>f. relpath (path f) src @ os_linesep os) fs)"
  by (induction fs)
     (simp_all add: translate_newlines_append translate_newlines_no_lf translate_newlines_lf)

text \<open>
  Claim C8, amended. When the relative paths contain no line feed and no
  surrogate code point, the listing \<open>filelist_<pack_id>.txt\<close> holds, for each file
  of the pack in order, the UTF-8 bytes of its relative path followed by the
  line separator of the platform: CR LF on Windows, a single LF elsewhere.
\<close>

theorem C8_filelist_platform_newlines:
  assumes "\<forall>f \<in> set (files t). 10 \<notin> set (relpath (path f) src)
                           \<and> list_all encodable (relpath (path f) src)"
  shows "write_filelist os relpath src t =
           (py ''filelist_'' @ str_of_int (pack_id t) @ py ''.txt'',
            Inr (concat (map (\<lambda>f. concat (map utf8_char (relpath (path f) src)) @ os_linesep os)
                          (files t))))
       \<and> os_linesep NT = [13, 10] \<and> os_linesep Posix = [10]
       \<and> (os = Posix \<longrightarrow>
            snd (write_filelist os relpath src t) = Inr (spec_filelist_bytes relpath src (files t)))"
proof -
  have tr: "translate_newlines os (filelist_text relpath src (files t))
      = concat (map (\<lambda>f. relpath (path f) src @ os_linesep os) (files t))"
    using assms by (intro filelist_text_translated) auto
  have enc: "list_all encodable (concat (map (\<lambda>f. relpath (path f) src @ os_linesep os) (files t)))"
    using assms encodable_linesep[of os] by (auto simp: list_all_iff)
  have bytes: "concat (map utf8_char (concat (map (\<lambda>f. relpath (path f) src @ os_linesep os) (files t))))
      = concat (map (\<lambda>f. concat (map utf8_char (relpath (path f) src)) @ os_linesep os) (files t))"
    by (rule utf8_lines)
  have w: "write_filelist os relpath src t =
           (py ''filelist_'' @ str_of_int (pack_id t) @ py ''.txt'',
            Inr (concat (map (\<lambda>f. concat (map utf8_char (relpath (path f) src)) @ os_linesep os)
                          (files t))))"
    by (simp add: write_filelist_def filelist_name_def utf8_encode_def tr enc bytes)
  have p: "os = Posix \<longrightarrow>
      snd (write_filelist os relpath src t) = Inr (spec_filelist_bytes relpath src (files t))"
    unfolding w by (simp add: os_linesep_def spec_filelist_bytes_def)
  show ?thesis
    using w p by (simp add: os_linesep_def)
qed

theorem C8_filelist_platform_newlines_witness:
  "list_all (\<lambda>f. 10 \<notin> set (ex_relpath (path f) (py ''C:/data''))
                  \<and> list_all encodable (ex_relpath (path f) (py ''C:/data''))) (files ex_pack)
   \<and> write_filelist NT ex_relpath (py ''C:/data'') ex_pack
       = (py ''filelist_7.txt'', Inr (map of_char ''a.txt'' @ [13, 10] @ map of_char ''sub/b'' @ [13, 10]))
   \<and> write_filelist Posix ex_relpath (py ''C:/data'') ex_pack
       = (py ''filelist_7.txt'', Inr (map of_char ''a.txt'' @ [10] @ map of_char ''sub/b'' @ [10]))"
proof -
  have h: "\<forall>f \<in> set (files ex_pack). 10 \<notin> set (ex_relpath (path f) (py ''C:/data''))
                  \<and> list_all encodable (ex_relpath (path f) (py ''C:/data''))"
    by (simp add: ex_pack_def ex_file_def ex_relpath_def py_def encodable_def)
  have n: "str_of_int 7 = [55]"
    by (simp add: str_of_int_def digits_of_nat.simps)
  show ?thesis
    using C8_filelist_platform_newlines[of ex_pack ex_relpath "py ''C:/data''" NT, OF h]
      C8_filelist_platform_newlines[of ex_pack ex_relpath "py ''C:/data''" Posix, OF h] h
    by (simp add: list_all_iff)
       (simp add: ex_pack_def ex_file_def ex_relpath_def py_def utf8_char_def n os_linesep_def)
qed

text \<open>
  Claim C8 as stated fails on Windows, the platform of the program: the text file
  is opened with the default newline translation, so each line ends in CR LF.
\<close>

theorem C8_filelist_lf_counterexample:
  "snd (write_filelist NT ex_relpath (py ''C:/data'') ex_pack)
     = Inr (map of_char ''a.txt'' @ [13, 10] @ map of_char ''sub/b'' @ [13, 10])
   \<and> snd (write_filelist NT ex_relpath (py ''C:/data'') ex_pack)
     \<noteq> Inr (spec_filelist_bytes ex_relpath (py ''C:/data'') (files ex_pack))"
  by (simp add: write_filelist_def utf8_encode_def translate_newlines_def os_linesep_def
        spec_filelist_bytes_def ex_pack_def ex_file_def ex_relpath_def py_def utf8_char_def
        encodable_def)

section \<open>Recovery planning: properties\<close>

lemma digits_of_nat_props:
  "digits_of_nat n \<noteq> [] \<and> list_all is_digit (digits_of_nat n)
   \<and> foldl (\<lambda>acc d. acc * 10 + (d - 48)) 0 (digits_of_nat n) = n"
proof (induction n rule: digits_of_nat.induct)
  case (1 n)
  show ?case
  proof (cases "n < 10")
    case True
    then show ?thesis by (subst (1 2 3) digits_of_nat.simps) (simp add: is_digit_def)
  next
    case False
    have m: "n mod 10 \<le> 9" by (simp add: Suc_leI less_Suc_eq_le)
    have d: "digits_of_nat n = digits_of_nat (n div 10) @ [48 + n mod 10]"
      using False by (subst digits_of_nat.simps) simp
    have "is_digit (48 + n mod 10)" using m by (simp add: is_digit_def)
    then show ?thesis using False "1.IH" by (simp add: d)
  qed
qed

lemma parse_digits_digits: "parse_digits (digits_of_nat n) = Some n"
  using digits_of_nat_props[of n] by (simp add: parse_digits_def)

lemma digit_not_space:
  "is_digit c \<Longrightarrow> \<not> ascii_space c \<and> c \<noteq> 45 \<and> c \<noteq> 43 \<and> c \<noteq> 95 \<and> c \<noteq> 46 \<and> c < 128"
  by (auto simp: is_digit_def ascii_space_def)

lemma double_underscore_digits: "list_all is_digit ds \<Longrightarrow> \<not> double_underscore ds"
  by (induction ds rule: double_underscore.induct) (auto simp: is_digit_def)

lemma py_int_digits:
  assumes "ds \<noteq> []" "list_all is_digit ds"
  shows "py_int ds = map_option int (parse_digits ds)"
    and "py_int (45 # ds) = map_option (\<lambda>n. - int n) (parse_digits ds)"
proof -
  have all: "\<forall>c \<in> set ds. is_digit c" using assms(2) by (simp add: list_all_iff)
  have asc: "to_ascii ds = ds" "to_ascii (45 # ds) = 45 # ds"
    using all digit_not_space by (auto simp: to_ascii_def list_all_iff)
  have hd: "is_digit (hd ds)" "is_digit (last ds)" using assms(1) all by auto
  have sp: "dropWhile ascii_space ds = ds"
    using assms(1) hd(1) digit_not_space[of "hd ds"] by (cases ds) auto
  have tw: "takeWhile (\<lambda>c. is_digit c \<or> c = 95) ds = ds"
    "dropWhile (\<lambda>c. is_digit c \<or> c = 95) ds = []"
    using all by auto
  have fl: "filter (\<lambda>c. c \<noteq> 95) ds = ds"
    using all digit_not_space by (auto simp: filter_id_conv)
  have ok: "hd ds \<noteq> 95" "last ds \<noteq> 95" "hd ds \<noteq> 45" "hd ds \<noteq> 43" "\<not> double_underscore ds"
    using hd digit_not_space double_underscore_digits[OF assms(2)] by auto
  show "py_int ds = map_option int (parse_digits ds)"
    using assms(1) ok by (simp add: py_int_def asc sp tw fl Let_def)
  have n45: "\<not> ascii_space 45" by (simp add: ascii_space_def)
  show "py_int (45 # ds) = map_option (\<lambda>n. - int n) (parse_digits ds)"
    using assms(1) ok by (simp add: py_int_def asc n45 tw fl Let_def)
qed

lemma py_int_str_of_int: "py_int (str_of_int i) = Some i"
proof (cases "i < 0")
  case True
  then show ?thesis
    using py_int_digits(2)[of "digits_of_nat (nat (- i))"] digits_of_nat_props[of "nat (- i)"]
    by (simp add: str_of_int_def parse_digits_digits)
next
  case False
  then show ?thesis
    using py_int_digits(1)[of "digits_of_nat (nat i)"] digits_of_nat_props[of "nat i"]
    by (simp add: str_of_int_def parse_digits_digits)
qed

lemma split_on_no_sep: "c \<notin> set s \<Longrightarrow> split_on c s = [s]"
  by (induction s) auto

lemma split_on_first: "c \<notin> set a \<Longrightarrow> split_on c (a @ c # b) = a # split_on c b"
  by (induction a) auto

lemma str_of_int_chars: "95 \<notin> set (str_of_int i) \<and> 46 \<notin> set (str_of_int i)"
proof -
  have "\<And>n. \<forall>c \<in> set (digits_of_nat n). c \<noteq> 95 \<and> c \<noteq> 46"
    using digits_of_nat_props digit_not_space by (auto simp: list_all_iff)
  then show ?thesis by (auto simp: str_of_int_def)
qed

lemma parse_pack_id_archive_name: "parse_pack_id (archive_name pid) = Some pid"
proof -
  let ?s = "str_of_int pid"
  have a: "archive_name pid = [112, 97, 99, 107] @ 95 # (?s @ [46, 55, 122])"
    by (simp add: archive_name_def py_def)
  have b: "split_on 95 (?s @ [46, 55, 122]) = [?s @ [46, 55, 122]]"
    using str_of_int_chars[of pid] by (intro split_on_no_sep) auto
  have c: "split_on 95 (archive_name pid) = [[112, 97, 99, 107], ?s @ [46, 55, 122]]"
    unfolding a by (subst split_on_first) (simp_all add: b)
  have d: "split_on 46 (?s @ [46, 55, 122]) = ?s # split_on 46 [55, 122]"
    using str_of_int_chars[of pid] by (intro split_on_first) auto
  show ?thesis by (simp add: parse_pack_id_def c d py_int_str_of_int)
qed

lemma archive_name_affixes:
  "startswith (archive_name pid) (py ''pack_'') \<and> endswith (archive_name pid) (py ''.7z'')"
  by (simp add: archive_name_def startswith_def endswith_def py_def)

lemma recovery_item_completed:
  "completed_task_ids (recovery_item m item st) = completed_task_ids st"
  by (simp add: recovery_item_def split: option.splits)

lemma recovery_item_mono:
  "set (recovery_tasks st) \<subseteq> set (recovery_tasks (recovery_item m item st))
   \<and> set (task_plan (recovery_item m item st)) \<subseteq> set (task_plan st)"
  by (auto simp: recovery_item_def split: option.splits)

lemma recovery_loop_mono:
  "set (recovery_tasks st) \<subseteq> set (recovery_tasks (recovery_loop m items st))
   \<and> set (task_plan (recovery_loop m items st)) \<subseteq> set (task_plan st)"
proof (induction items arbitrary: st)
  case Nil
  then show ?case by simp
next
  case (Cons item items)
  show ?case
    using Cons.IH[of "recovery_item m item st"] recovery_item_mono[of st m item] by auto
qed

lemma recovery_loop_converts:
  assumes "item \<in> set items"
    "startswith item (py ''pack_'')" "endswith item (py ''.7z'')"
    "parse_pack_id item = Some pid" "m pid = Some original_task"
    "task_id original_task \<notin> completed_task_ids st"
  shows "ResumeExtract (task_id original_task) (pack_id original_task) (files original_task)
           \<in> set (recovery_tasks (recovery_loop m items st))
       \<and> (\<forall>u \<in> set (task_plan (recovery_loop m items st)). task_id u \<noteq> task_id original_task)"
  using assms
proof (induction items arbitrary: st)
  case Nil
  then show ?case by simp
next
  case (Cons x items)
  let ?st = "recovery_item m x st"
  show ?case
  proof (cases "x = item")
    case True
    have "ResumeExtract (task_id original_task) (pack_id original_task) (files original_task)
           \<in> set (recovery_tasks ?st)
       \<and> (\<forall>u \<in> set (task_plan ?st). task_id u \<noteq> task_id original_task)"
      using True Cons.prems by (simp add: recovery_item_def)
    then show ?thesis using recovery_loop_mono[of ?st m items] by auto
  next
    case False
    then have "item \<in> set items" using Cons.prems(1) by simp
    moreover have "task_id original_task \<notin> completed_task_ids ?st"
      using Cons.prems(6) by (simp add: recovery_item_completed)
    ultimately show ?thesis using Cons.IH[of ?st] Cons.prems by simp
  qed
qed

lemma pack_id_to_task_lookup:
  assumes "distinct (map pack_id (filter is_pack stored))" "t \<in> set stored" "is_pack t"
  shows "pack_id_to_task stored (pack_id t) = Some t"
proof -
  let ?xys = "rev (map (\<lambda>t. (pack_id t, t)) (filter is_pack stored))"
  have "distinct (map fst ?xys)" using assms(1) by (simp add: rev_map[symmetric] comp_def)
  moreover have "(pack_id t, t) \<in> set ?xys" using assms(2,3) by auto
  ultimately show ?thesis unfolding pack_id_to_task_def by (simp only: map_of_eq_Some_iff)
qed

lemma update_fresh: "k \<notin> fst ` set al \<Longrightarrow> AList.update k v al = al @ [(k, v)]"
  by (induction al) auto

lemma submit_tasks_appends:
  assumes "\<forall>k \<in> fst ` set (active_futures st). \<forall>n. k = MainFuture n \<longrightarrow> n < next_future st"
  shows "active_futures (submit_tasks ts st)
           = active_futures st @ zip (map MainFuture [next_future st..<next_future st + length ts]) ts
       \<and> next_future (submit_tasks ts st) = next_future st + length ts"
  using assms
proof (induction ts arbitrary: st)
  case Nil
  then show ?case by simp
next
  case (Cons t ts)
  let ?k = "MainFuture (next_future st)"
  let ?st = "st\<lparr> active_futures := AList.update ?k t (active_futures st),
                  next_future := Suc (next_future st) \<rparr>"
  have fresh: "?k \<notin> fst ` set (active_futures st)" using Cons.prems by fastforce
  then have upd: "AList.update ?k t (active_futures st) = active_futures st @ [(?k, t)]"
    by (rule update_fresh)
  have inv: "\<forall>k \<in> fst ` set (active_futures ?st). \<forall>n. k = MainFuture n \<longrightarrow> n < next_future ?st"
    using Cons.prems by (auto simp: upd less_Suc_eq)
  have "[next_future st..<next_future st + length (t # ts)]
      = next_future st # [Suc (next_future st)..<Suc (next_future st) + length ts]"
    by (subst upt_rec) simp
  then show ?case using Cons.IH[OF inv] by (simp add: upd del: upt_Suc)
qed

lemma load_tasks_resume_session:
  "resume_session (load_tasks ts st) = resume_session st"
  by (induction ts arbitrary: st) (auto split: task.splits)

lemma submit_tasks_plans:
  "task_plan (submit_tasks ts st) = task_plan st"
  "recovery_tasks (submit_tasks ts st) = recovery_tasks st"
  by (induction ts arbitrary: st) simp_all

lemma submit_plan_order:
  "active_futures (submit_plan st)
     = zip (map MainFuture [next_future st..<next_future st + length (recovery_tasks st @ task_plan st)])
           (recovery_tasks st @ task_plan st)"
proof -
  let ?n = "next_future st"
  let ?rs = "recovery_tasks st"
  let ?ps = "task_plan st"
  let ?s0 = "st\<lparr> active_futures := [] \<rparr>"
  let ?s1 = "submit_tasks ?rs ?s0"
  have a: "active_futures ?s1 = zip (map MainFuture [?n..<?n + length ?rs]) ?rs
      \<and> next_future ?s1 = ?n + length ?rs"
    using submit_tasks_appends[of ?s0 ?rs] by simp
  have inv: "\<forall>k \<in> fst ` set (active_futures ?s1). \<forall>n. k = MainFuture n \<longrightarrow> n < next_future ?s1"
    by (auto simp: a dest!: set_zip_leftD)
  have b: "active_futures (submit_tasks ?ps ?s1)
      = zip (map MainFuture [?n..<?n + length ?rs]) ?rs
        @ zip (map MainFuture [?n + length ?rs..<?n + length ?rs + length ?ps]) ?ps"
    using submit_tasks_appends[OF inv, of ?ps] by (simp add: a)
  have u: "[?n..<?n + length (?rs @ ?ps)]
      = [?n..<?n + length ?rs] @ [?n + length ?rs..<?n + length ?rs + length ?ps]"
    using upt_add_eq_append[of ?n "?n + length ?rs" "length ?ps"] by (simp add: add.assoc)
  show ?thesis
    unfolding submit_plan_def submit_tasks_plans u by (simp add: b)
qed

lemma listed_pack_ids_Cons:
  "listed_pack_ids (item # items) =
     (if startswith item (py ''pack_'') \<and> endswith item (py ''.7z'')
      then (case parse_pack_id item of None \<Rightarrow> [] | Some pid \<Rightarrow> [pid]) else [])
     @ listed_pack_ids items"
  by (simp add: listed_pack_ids_def List.map_filter_def split: option.splits)

lemma recovered_Cons:
  "recovered m completed (item # items) =
     (if startswith item (py ''pack_'') \<and> endswith item (py ''.7z'')
      then (case parse_pack_id item of
              None \<Rightarrow> []
            | Some pid \<Rightarrow> (case m pid of
                             None \<Rightarrow> []
                           | Some t \<Rightarrow> if task_id t \<notin> completed then [t] else []))
      else [])
     @ recovered m completed items"
proof (cases "startswith item (py ''pack_'') \<and> endswith item (py ''.7z'')")
  case False
  then show ?thesis by (auto simp: recovered_def listed_pack_ids_Cons)
next
  case True
  show ?thesis
  proof (cases "parse_pack_id item")
    case None
    then show ?thesis using True by (simp add: recovered_def listed_pack_ids_Cons)
  next
    case (Some pid)
    then show ?thesis
      using True
      by (cases "m pid") (simp_all add: recovered_def listed_pack_ids_Cons List.map_filter_simps)
  qed
qed

lemma recovered_Nil: "recovered m completed [] = []"
  by (simp add: recovered_def listed_pack_ids_def List.map_filter_def)

lemma recovery_loop_exact:
  "recovery_tasks (recovery_loop m items st)
     = recovery_tasks st
       @ map (\<lambda>t. ResumeExtract (task_id t) (pack_id t) (files t))
           (recovered m (completed_task_ids st) items)
   \<and> task_plan (recovery_loop m items st)
     = filter (\<lambda>u. task_id u \<notin> task_id ` set (recovered m (completed_task_ids st) items))
         (task_plan st)"
proof (induction items arbitrary: st)
  case Nil
  then show ?case by (simp add: recovered_Nil)
next
  case (Cons item items)
  let ?st = "recovery_item m item st"
  have c: "completed_task_ids ?st = completed_task_ids st" by (rule recovery_item_completed)
  have one: "recovery_tasks ?st
        = recovery_tasks st
          @ map (\<lambda>t. ResumeExtract (task_id t) (pack_id t) (files t))
              (recovered m (completed_task_ids st) [item])
      \<and> task_plan ?st
        = filter (\<lambda>u. task_id u \<notin> task_id ` set (recovered m (completed_task_ids st) [item]))
            (task_plan st)"
  proof (cases "startswith item (py ''pack_'') \<and> endswith item (py ''.7z'')")
    case False
    have "recovery_item m item st = st" using False unfolding recovery_item_def by auto
    moreover have "recovered m (completed_task_ids st) [item] = []"
      using False unfolding recovered_Cons recovered_Nil by auto
    ultimately show ?thesis by simp
  next
    case True
    show ?thesis
    proof (cases "parse_pack_id item")
      case None
      then show ?thesis using True by (simp add: recovery_item_def recovered_Cons recovered_Nil)
    next
      case (Some pid)
      then show ?thesis
        using True
        by (cases "m pid") (simp_all add: recovery_item_def recovered_Cons recovered_Nil)
    qed
  qed
  have r: "recovered m (completed_task_ids st) (item # items)
      = recovered m (completed_task_ids st) [item] @ recovered m (completed_task_ids st) items"
    by (simp add: recovered_Cons[of m _ item items] recovered_Cons[of m _ item "[]"] recovered_Nil)
  have f: "\<And>A B xs. filter (\<lambda>u::task. task_id u \<notin> task_id ` set B)
                       (filter (\<lambda>u. task_id u \<notin> task_id ` set A) xs)
                   = filter (\<lambda>u. task_id u \<notin> task_id ` set (A @ B)) xs"
    by (auto intro!: filter_cong)
  have rt: "recovery_tasks (recovery_loop m items ?st)
      = recovery_tasks st
        @ map (\<lambda>t. ResumeExtract (task_id t) (pack_id t) (files t))
            (recovered m (completed_task_ids st) [item] @ recovered m (completed_task_ids st) items)"
    using conjunct1[OF Cons.IH[of ?st]] conjunct1[OF one] unfolding c by simp
  have "task_plan (recovery_loop m items ?st)
      = filter (\<lambda>u. task_id u \<notin> task_id ` set (recovered m (completed_task_ids st) items))
          (task_plan ?st)"
    using conjunct2[OF Cons.IH[of ?st]] unfolding c .
  also have "\<dots> = filter (\<lambda>u. task_id u \<notin> task_id ` set (recovered m (completed_task_ids st) items))
          (filter (\<lambda>u. task_id u \<notin> task_id ` set (recovered m (completed_task_ids st) [item]))
             (task_plan st))"
    by (simp only: conjunct2[OF one])
  also have "\<dots> = filter (\<lambda>u. task_id u \<notin> task_id ` set
          (recovered m (completed_task_ids st) [item] @ recovered m (completed_task_ids st) items))
          (task_plan st)"
    by (rule f)
  finally show ?case
    unfolding recovery_loop.simps r using rt by blast
qed

lemma pack_id_to_task_sound:
  "pack_id_to_task stored pid = Some t \<Longrightarrow> t \<in> set stored \<and> is_pack t \<and> pack_id t = pid"
  unfolding pack_id_to_task_def by (auto dest!: map_of_SomeD)

lemma map_filter_sound:
  assumes "\<And>x y. m x = Some y \<Longrightarrow> g y = x"
  shows "map g (List.map_filter m xs) = filter (\<lambda>x. m x \<noteq> None) xs"
  using assms by (induction xs) (auto simp: List.map_filter_def)

lemma recovered_props:
  "set (recovered (pack_id_to_task stored) completed items)
     \<subseteq> {t \<in> set stored. is_pack t \<and> task_id t \<notin> completed}"
  "distinct (listed_pack_ids items) \<Longrightarrow>
     distinct (map pack_id (recovered (pack_id_to_task stored) completed items))"
proof -
  let ?m = "pack_id_to_task stored"
  show "set (recovered ?m completed items) \<subseteq> {t \<in> set stored. is_pack t \<and> task_id t \<notin> completed}"
    using pack_id_to_task_sound[of stored]
    by (auto simp: recovered_def List.map_filter_def)
  assume d: "distinct (listed_pack_ids items)"
  have "map pack_id (List.map_filter ?m (listed_pack_ids items))
      = filter (\<lambda>x. ?m x \<noteq> None) (listed_pack_ids items)"
    using pack_id_to_task_sound[of stored] by (intro map_filter_sound) simp
  then have "distinct (map pack_id (List.map_filter ?m (listed_pack_ids items)))"
    using d by simp
  then show "distinct (map pack_id (recovered ?m completed items))"
    unfolding recovered_def by (rule distinct_map_filter)
qed

section \<open>The execution pipeline: properties\<close>

lemma progress_values_status [simp]:
  "progress_values (status_callback msg None st) = progress_values st"
  "progress_values (status_callback msg (Some p) st) = progress_values st @ [p]"
  by (simp_all add: progress_values_def status_callback_def List.map_filter_def)

lemma status_callback_fields [simp]:
  "active_futures (status_callback msg p st) = active_futures st"
  "final_callbacks (status_callback msg p st) = final_callbacks st"
  "total_transfer_size (status_callback msg p st) = total_transfer_size st"
  "processed_size (status_callback msg p st) = processed_size st"
  "completed_task_queue (status_callback msg p st) = completed_task_queue st"
  "stop_event (status_callback msg p st) = stop_event st"
  "transfer_failed (status_callback msg p st) = transfer_failed st"
  "teardown_done (status_callback msg p st) = teardown_done st"
  "next_future (status_callback msg p st) = next_future st"
  "task_plan (status_callback msg p st) = task_plan st"
  "recovery_tasks (status_callback msg p st) = recovery_tasks st"
  "resume_session (status_callback msg p st) = resume_session st"
  by (simp_all add: status_callback_def)

lemma update_progress_fields [simp]:
  "active_futures (snd (update_progress fl t failed st)) = active_futures st"
  "final_callbacks (snd (update_progress fl t failed st)) = final_callbacks st"
  "total_transfer_size (snd (update_progress fl t failed st)) = total_transfer_size st"
  "completed_task_queue (snd (update_progress fl t failed st)) = completed_task_queue st"
  "stop_event (snd (update_progress fl t failed st)) = stop_event st"
  "transfer_failed (snd (update_progress fl t failed st)) = transfer_failed st"
  "teardown_done (snd (update_progress fl t failed st)) = teardown_done st"
  "next_future (snd (update_progress fl t failed st)) = next_future st"
  "processed_size (snd (update_progress fl t failed st)) = processed_size st + task_size t"
  by (simp_all add: update_progress_def Let_def)

lemma update_progress_raises:
  "fst (update_progress fl t failed st)
     = (if total_transfer_size st = 0 then Some ZeroDivisionError else None)"
  by (simp add: update_progress_def Let_def)

lemma update_progress_values:
  "progress_values (snd (update_progress fl t failed st)) = progress_values st
   \<or> (total_transfer_size st \<noteq> 0
      \<and> progress_values (snd (update_progress fl t failed st))
          = progress_values st
            @ [progress_percent fl (processed_size st + task_size t) (total_transfer_size st)])"
  by (simp add: update_progress_def Let_def)
     (simp add: progress_values_def List.map_filter_def)

lemma pending_update_progress [simp]:
  "pending (snd (update_progress fl t failed st)) = pending st"
  by (simp add: pending_def)

lemma task_failed_handler_fields [simp]:
  "active_futures (task_failed_handler fl t st) = active_futures st"
  "final_callbacks (task_failed_handler fl t st) = final_callbacks st"
  "total_transfer_size (task_failed_handler fl t st) = total_transfer_size st"
  "completed_task_queue (task_failed_handler fl t st) = completed_task_queue st"
  "stop_event (task_failed_handler fl t st) = stop_event st"
  "transfer_failed (task_failed_handler fl t st)"
  "teardown_done (task_failed_handler fl t st) = teardown_done st"
  "next_future (task_failed_handler fl t st) = next_future st"
  "processed_size (task_failed_handler fl t st) = processed_size st + task_size t"
  by (simp_all add: task_failed_handler_def)

lemma task_failed_handler_values:
  "progress_values (task_failed_handler fl t st) = progress_values st
   \<or> (total_transfer_size st \<noteq> 0
      \<and> progress_values (task_failed_handler fl t st)
          = progress_values st
            @ [progress_percent fl (processed_size st + task_size t) (total_transfer_size st)])"
  using update_progress_values[of fl t True "st\<lparr> transfer_failed := True \<rparr>"]
  by (simp add: task_failed_handler_def progress_values_def)

lemma complete_task_fields [simp]:
  "active_futures (complete_task fl t st) = active_futures st"
  "final_callbacks (complete_task fl t st) = final_callbacks st"
  "total_transfer_size (complete_task fl t st) = total_transfer_size st"
  "completed_task_queue (complete_task fl t st) = completed_task_queue st @ [task_id t]"
  "stop_event (complete_task fl t st) = stop_event st"
  "teardown_done (complete_task fl t st) = teardown_done st"
  "next_future (complete_task fl t st) = next_future st"
proof -
  obtain e st' where u: "update_progress fl t False (mark_task_complete t st) = (e, st')"
    by (cases "update_progress fl t False (mark_task_complete t st)")
  have s: "st' = snd (update_progress fl t False (mark_task_complete t st))" using u by simp
  show "active_futures (complete_task fl t st) = active_futures st"
    "final_callbacks (complete_task fl t st) = final_callbacks st"
    "total_transfer_size (complete_task fl t st) = total_transfer_size st"
    "completed_task_queue (complete_task fl t st) = completed_task_queue st @ [task_id t]"
    "stop_event (complete_task fl t st) = stop_event st"
    "teardown_done (complete_task fl t st) = teardown_done st"
    "next_future (complete_task fl t st) = next_future st"
    unfolding complete_task_def u
    by (cases e; simp add: s mark_task_complete_def)+
qed

lemma complete_task_zero_total:
  "total_transfer_size st = 0 \<Longrightarrow> transfer_failed (complete_task fl t st)"
proof -
  assume z: "total_transfer_size st = 0"
  obtain e st' where u: "update_progress fl t False (mark_task_complete t st) = (e, st')"
    by (cases "update_progress fl t False (mark_task_complete t st)")
  have "e = Some ZeroDivisionError"
    using update_progress_raises[of fl t False "mark_task_complete t st"] u z
    by (simp add: mark_task_complete_def)
  then show ?thesis unfolding complete_task_def u by simp
qed

lemma complete_task_nonzero_total:
  assumes "total_transfer_size st \<noteq> 0"
  shows "processed_size (complete_task fl t st) = processed_size st + task_size t
       \<and> transfer_failed (complete_task fl t st) = transfer_failed st
       \<and> (progress_values (complete_task fl t st) = progress_values st
          \<or> progress_values (complete_task fl t st)
              = progress_values st
                @ [progress_percent fl (processed_size st + task_size t) (total_transfer_size st)])"
proof -
  let ?m = "mark_task_complete t st"
  obtain e st' where u: "update_progress fl t False ?m = (e, st')"
    by (cases "update_progress fl t False ?m")
  have e: "e = None"
    using update_progress_raises[of fl t False ?m] u assms by (simp add: mark_task_complete_def)
  have s: "st' = snd (update_progress fl t False ?m)" using u by simp
  have c: "complete_task fl t st = st'" unfolding complete_task_def u e by simp
  show ?thesis
    unfolding c s using update_progress_values[of fl t False ?m]
    by (auto simp: mark_task_complete_def progress_values_def)
qed

lemma complete_task_failed_mono:
  "transfer_failed st \<Longrightarrow> transfer_failed (complete_task fl t st)"
  using complete_task_zero_total[of st fl t] complete_task_nonzero_total[of st fl t]
  by (cases "total_transfer_size st = 0") auto

lemma final_cleanup_callback_fields [simp]:
  "active_futures (final_cleanup_callback fl res r t c st) = active_futures st"
  "final_callbacks (final_cleanup_callback fl res r t c st) = final_callbacks st"
  "total_transfer_size (final_cleanup_callback fl res r t c st) = total_transfer_size st"
  "stop_event (final_cleanup_callback fl res r t c st) = stop_event st"
  "teardown_done (final_cleanup_callback fl res r t c st) = teardown_done st"
  "next_future (final_cleanup_callback fl res r t c st) = next_future st"
  by (simp_all add: final_cleanup_callback_def split: sum.splits)

lemma final_cleanup_callback_failed:
  "transfer_failed st \<or> total_transfer_size st = 0
     \<Longrightarrow> transfer_failed (final_cleanup_callback fl res r t c st)"
  by (auto simp: final_cleanup_callback_def complete_task_failed_mono complete_task_zero_total
        split: sum.splits)

lemma fold_final_fields [simp]:
  "active_futures (foldl (\<lambda>s (d', t, c). final_cleanup_callback fl res r t c s) st cbs)
     = active_futures st"
  "final_callbacks (foldl (\<lambda>s (d', t, c). final_cleanup_callback fl res r t c s) st cbs)
     = final_callbacks st"
  "total_transfer_size (foldl (\<lambda>s (d', t, c). final_cleanup_callback fl res r t c s) st cbs)
     = total_transfer_size st"
  "stop_event (foldl (\<lambda>s (d', t, c). final_cleanup_callback fl res r t c s) st cbs)
     = stop_event st"
  "teardown_done (foldl (\<lambda>s (d', t, c). final_cleanup_callback fl res r t c s) st cbs)
     = teardown_done st"
  "next_future (foldl (\<lambda>s (d', t, c). final_cleanup_callback fl res r t c s) st cbs)
     = next_future st"
  by (induction cbs arbitrary: st; simp split: prod.splits)+

lemma fold_final_failed:
  "transfer_failed st \<or> (total_transfer_size st = 0 \<and> cbs \<noteq> [])
     \<Longrightarrow> transfer_failed (foldl (\<lambda>s (d', t, c). final_cleanup_callback fl res r t c s) st cbs)"
proof (induction cbs arbitrary: st)
  case Nil
  then show ?case by simp
next
  case (Cons cb cbs)
  obtain d t c where cb: "cb = (d, t, c)" by (cases cb)
  have "transfer_failed (final_cleanup_callback fl res r t c st)"
    using Cons.prems by (intro final_cleanup_callback_failed) auto
  then show ?case using Cons.IH[of "final_cleanup_callback fl res r t c st"] by (simp add: cb)
qed

lemma step_total [simp]: "total_transfer_size (step fl st ev) = total_transfer_size st"
  by (cases ev)
     (auto simp: main_task_done_callback_def cleanup_task_done_callback_def
        run_final_callbacks_def submit_cleanup_def Let_def
        split: option.splits sum.splits main_result.splits)

lemma step_teardown [simp]: "teardown_done (step fl st ev) = teardown_done st"
  by (cases ev)
     (auto simp: main_task_done_callback_def cleanup_task_done_callback_def
        run_final_callbacks_def submit_cleanup_def Let_def
        split: option.splits sum.splits main_result.splits)

lemma pending_after_submit: "pending (submit_cleanup t st) \<noteq> []"
  by (cases "active_futures st") (auto simp: pending_def submit_cleanup_def)

lemma step_zero_total_failed:
  assumes "total_transfer_size st = 0" "transfer_failed st \<or> pending st \<noteq> []"
  shows "transfer_failed (step fl st ev) \<or> pending (step fl st ev) \<noteq> []"
proof (cases ev)
  case (MainDone n result)
  show ?thesis
  proof (cases "map_of (active_futures st) (MainFuture n)")
    case None
    then show ?thesis using assms MainDone by (simp add: main_task_done_callback_def)
  next
    case (Some t)
    let ?st1 = "st\<lparr> active_futures := AList.delete (MainFuture n) (active_futures st) \<rparr>"
    have z: "total_transfer_size ?st1 = 0" using assms(1) by simp
    show ?thesis
      using MainDone Some complete_task_zero_total[OF z] pending_after_submit[of t ?st1]
      by (auto simp: main_task_done_callback_def Let_def pending_def
            split: sum.splits main_result.splits option.splits)
  qed
next
  case (DeleteDone d res r)
  let ?cbs = "filter (\<lambda>(d', t, c). d' = d) (final_callbacks st)"
  let ?st1 = "st\<lparr> final_callbacks := filter (\<lambda>(d', t, c). d' \<noteq> d) (final_callbacks st) \<rparr>"
  show ?thesis
  proof (cases "?cbs = []")
    case True
    then have "filter (\<lambda>(d', t, c). d' \<noteq> d) (final_callbacks st) = final_callbacks st"
      by (auto simp: filter_empty_conv filter_id_conv)
    then show ?thesis using assms DeleteDone True
      by (simp add: run_final_callbacks_def pending_def)
  next
    case False
    have "transfer_failed (foldl (\<lambda>s (d', t, c). final_cleanup_callback fl res r t c s) ?st1 ?cbs)"
      using assms(1) False by (intro fold_final_failed) simp
    then show ?thesis using DeleteDone by (simp add: run_final_callbacks_def)
  qed
next
  case (CleanupDone n result)
  show ?thesis
  proof (cases "map_of (active_futures st) (CleanupFuture n)")
    case None
    then show ?thesis using assms CleanupDone by (simp add: cleanup_task_done_callback_def)
  next
    case (Some t)
    let ?st1 = "st\<lparr> active_futures := AList.delete (CleanupFuture n) (active_futures st) \<rparr>"
    have z: "total_transfer_size ?st1 = 0" using assms(1) by simp
    show ?thesis
      using CleanupDone Some complete_task_zero_total[OF z]
      by (auto simp: cleanup_task_done_callback_def Let_def split: sum.splits)
  qed
next
  case StopRequested
  then show ?thesis using assms by (simp add: pending_def)
qed

lemma steps_zero_total_failed:
  assumes "total_transfer_size st = 0" "transfer_failed st \<or> pending st \<noteq> []"
  shows "transfer_failed (foldl (step fl) st evs) \<or> pending (foldl (step fl) st evs) \<noteq> []"
  using assms
proof (induction evs arbitrary: st)
  case Nil
  then show ?case by simp
next
  case (Cons ev evs)
  show ?case
    using Cons.IH[of "step fl st ev"] step_zero_total_failed[OF Cons.prems, of fl ev] Cons.prems(1)
    by simp
qed

lemma scan_and_plan_other_fields [simp]:
  "recovery_tasks (scan_and_plan fl shuffle uuid4 all_files st) = recovery_tasks st"
  "resume_session (scan_and_plan fl shuffle uuid4 all_files st) = resume_session st"
  "stop_event (scan_and_plan fl shuffle uuid4 all_files st) = stop_event st"
  "transfer_failed (scan_and_plan fl shuffle uuid4 all_files st) = transfer_failed st"
  "active_futures (scan_and_plan fl shuffle uuid4 all_files st) = active_futures st"
  "final_callbacks (scan_and_plan fl shuffle uuid4 all_files st) = final_callbacks st"
  "teardown_done (scan_and_plan fl shuffle uuid4 all_files st) = teardown_done st"
  "processed_size (scan_and_plan fl shuffle uuid4 all_files st) = processed_size st"
  "next_future (scan_and_plan fl shuffle uuid4 all_files st) = next_future st"
  "progress_values (scan_and_plan fl shuffle uuid4 all_files st) = progress_values st"
  by (simp_all add: scan_and_plan_def Let_def status_callback_def progress_values_def
        List.map_filter_def split: prod.splits)

lemma scan_and_plan_nonempty:
  assumes "all_files \<noteq> []" "\<forall>xs. mset (shuffle xs) = mset xs"
  shows "task_plan (scan_and_plan fl shuffle uuid4 all_files st) \<noteq> []"
proof -
  define thr where "thr = large_file_threshold fl (sum_sizes all_files) (length all_files)"
  define large where "large = filter (\<lambda>f. thr \<le> of_int (size_bytes f)) all_files"
  define small where "small = filter (\<lambda>f. \<not> thr \<le> of_int (size_bytes f)) all_files"
  define chunks where "chunks = split_chunks
      (ideal_files_per_pack (max_workers st) (chunk_file_limit st) (shuffle small))
      (chunk_size_limit st) [] (shuffle small)"
  have plan: "task_plan (scan_and_plan fl shuffle uuid4 all_files st)
      = task_plan st @ number_moves uuid4 0 large @ number_packs uuid4 (length large) 0 chunks"
    using assms(1)
    by (simp add: scan_and_plan_task_plan Let_def thr_def large_def small_def chunks_def)
  show ?thesis
  proof (cases "large = []")
    case False
    then have "number_moves uuid4 0 large \<noteq> []" by (cases large) auto
    then show ?thesis by (simp add: plan)
  next
    case True
    then have "small \<noteq> []"
      using assms(1) unfolding large_def small_def
      by (metis (mono_tags, lifting) filter_empty_conv last_in_set)
    then have "shuffle small \<noteq> []" using assms(2) by (metis mset_zero_iff)
    then have "chunks \<noteq> []"
      using concat_split_chunks[of _ _ "[]" "shuffle small"] unfolding chunks_def
      by (metis append_Nil concat.simps(1))
    then have "number_packs uuid4 (length large) 0 chunks \<noteq> []" by (cases chunks) auto
    then show ?thesis by (simp add: plan)
  qed
qed

lemma submit_tasks_final:
  "final_callbacks (submit_tasks ts st) = final_callbacks st"
  by (induction ts arbitrary: st) simp_all

lemma pending_submit_plan:
  "final_callbacks st = [] \<Longrightarrow> pending (submit_plan st) = recovery_tasks st @ task_plan st"
proof -
  assume f: "final_callbacks st = []"
  have "final_callbacks (submit_plan st) = []"
    using f by (simp add: submit_plan_def submit_tasks_final)
  then show ?thesis
    by (simp add: pending_def submit_plan_order)
qed

lemma finally_clause_fields [simp]:
  "pending (finally_clause st) = pending st"
  "transfer_failed (finally_clause st) = transfer_failed st"
  "total_transfer_size (finally_clause st) = total_transfer_size st"
  "teardown_done (finally_clause st) \<longleftrightarrow> teardown_done st \<or> (\<not> stop_event st \<and> \<not> transfer_failed st)"
  by (auto simp: finally_clause_def Let_def pending_def status_callback_def)

lemma pending_status [simp]: "pending (status_callback msg p st) = pending st"
  by (simp add: pending_def)

lemma steps_fields [simp]:
  "total_transfer_size (foldl (step fl) st evs) = total_transfer_size st"
  "teardown_done (foldl (step fl) st evs) = teardown_done st"
  by (induction evs arbitrary: st) simp_all

lemma submit_plan_fields [simp]:
  "total_transfer_size (submit_plan st) = total_transfer_size st"
  "teardown_done (submit_plan st) = teardown_done st"
  "transfer_failed (submit_plan st) = transfer_failed st"
  "processed_size (submit_plan st) = processed_size st"
  "final_callbacks (submit_plan st) = final_callbacks st"
  "status_calls (submit_plan st) = status_calls st"
proof -
  have a: "\<And>ts s. total_transfer_size (submit_tasks ts s) = total_transfer_size s
      \<and> teardown_done (submit_tasks ts s) = teardown_done s
      \<and> transfer_failed (submit_tasks ts s) = transfer_failed s
      \<and> processed_size (submit_tasks ts s) = processed_size s
      \<and> final_callbacks (submit_tasks ts s) = final_callbacks s
      \<and> status_calls (submit_tasks ts s) = status_calls s"
  proof -
    fix ts s show "total_transfer_size (submit_tasks ts s) = total_transfer_size s
      \<and> teardown_done (submit_tasks ts s) = teardown_done s
      \<and> transfer_failed (submit_tasks ts s) = transfer_failed s
      \<and> processed_size (submit_tasks ts s) = processed_size s
      \<and> final_callbacks (submit_tasks ts s) = final_callbacks s
      \<and> status_calls (submit_tasks ts s) = status_calls s"
      by (induction ts arbitrary: s) simp_all
  qed
  show "total_transfer_size (submit_plan st) = total_transfer_size st"
    "teardown_done (submit_plan st) = teardown_done st"
    "transfer_failed (submit_plan st) = transfer_failed st"
    "processed_size (submit_plan st) = processed_size st"
    "final_callbacks (submit_plan st) = final_callbacks st"
    "status_calls (submit_plan st) = status_calls st"
    by (simp_all add: submit_plan_def a)
qed

text \<open>
  The state in which a fresh run starts to execute its plan: \<open>run\<close> up to the call
  of \<open>_execute_plan\<close>.
\<close>

lemma run_fresh:
  assumes "all_files \<noteq> []" "\<forall>xs. mset (shuffle xs) = mset xs"
  shows "run fl shuffle uuid4 all_files sf listing evs
           (init_logic src dst workers mb limit False copy mklink)
       = (let st3 = scan_and_plan fl shuffle uuid4 all_files
                      (status_callback Msg_scan_and_plan None
                         (status_callback Msg_prepare None
                            (init_logic src dst workers mb limit False copy mklink)));
              st4 = foldl (step fl)
                      (submit_plan (status_callback (Msg_start (length (task_plan st3))) None st3))
                      evs
          in finally_clause
               (if \<not> stop_event st4 then status_callback Msg_done (Some 100) st4 else st4))"
proof -
  let ?st0 = "init_logic src dst workers mb limit False copy mklink"
  have r: "resume_phase fl sf ?st0 = ?st0" by (simp add: resume_phase_def init_logic_def)
  have i: "?st0\<lparr> recovery_tasks := [] \<rparr> = ?st0" by (simp add: init_logic_def)
  have p: "plan_phase fl shuffle uuid4 all_files sf listing ?st0
      = scan_and_plan fl shuffle uuid4 all_files
          (status_callback Msg_scan_and_plan None (status_callback Msg_prepare None ?st0))"
    unfolding plan_phase_def Let_def i by (simp add: init_logic_def)
  have ne: "task_plan (scan_and_plan fl shuffle uuid4 all_files
          (status_callback Msg_scan_and_plan None (status_callback Msg_prepare None ?st0))) \<noteq> []"
    using scan_and_plan_nonempty[OF assms] by simp
  show ?thesis
    unfolding run_def r p
    using ne by (simp add: execute_phase_def execute_plan_def Let_def init_logic_def)
qed

lemma cleanup_callback_zero_total:
  assumes "total_transfer_size s = 0" "map_of (active_futures s) fut = Some t"
  shows "transfer_failed (cleanup_task_done_callback fl fut result s)"
proof (cases result)
  case (Inl e)
  then show ?thesis using assms(2) by (simp add: cleanup_task_done_callback_def)
next
  case (Inr u)
  have "transfer_failed (complete_task fl t (s\<lparr> active_futures := AList.delete fut (active_futures s) \<rparr>))"
    using assms(1) by (intro complete_task_zero_total) simp
  then show ?thesis using assms(2) Inr by (simp add: cleanup_task_done_callback_def)
qed

lemma main_callback_zero_total:
  assumes "total_transfer_size s = 0" "map_of (active_futures s) fut = Some t"
  shows "transfer_failed (main_task_done_callback fl fut (Inr (LargeCleanup [])) s)"
proof -
  have "transfer_failed (complete_task fl t (s\<lparr> active_futures := AList.delete fut (active_futures s) \<rparr>))"
    using assms(1) by (intro complete_task_zero_total) simp
  then show ?thesis using assms(2) by (simp add: main_task_done_callback_def)
qed

text \<open>
  Claim C9. When the total size is 0, every call of \<open>_update_progress\<close> raises
  \<open>ZeroDivisionError\<close>, and each callback that completes a task leaves
  \<open>_transfer_failed\<close> set: \<open>_cleanup_task_done_callback\<close> and
  \<open>_main_task_done_callback\<close> (for a large file with no directory to reclaim)
  whenever the future is in \<open>active_futures\<close>, and \<open>_final_cleanup_callback\<close>.
  A fresh run that finds at least one file, all of them empty, has total size 0
  throughout; once its callbacks have all run (no future and no done-callback is
  left) \<open>_transfer_failed\<close> is set and the run has not entered its final clean-up.
\<close>

theorem C9_zero_total_fails:
  assumes "all_files \<noteq> []" and "sum_sizes all_files = 0"
    and "\<forall>xs. mset (shuffle xs) = mset xs"
  shows "(\<forall>s t failed. total_transfer_size s = 0 \<longrightarrow>
            fst (update_progress fl t failed s) = Some ZeroDivisionError)
    \<and> (\<forall>s fut t result. total_transfer_size s = 0 \<and> map_of (active_futures s) fut = Some t \<longrightarrow>
            transfer_failed (cleanup_task_done_callback fl fut result s))
    \<and> (\<forall>s fut t. total_transfer_size s = 0 \<and> map_of (active_futures s) fut = Some t \<longrightarrow>
            transfer_failed (main_task_done_callback fl fut (Inr (LargeCleanup [])) s))
    \<and> (\<forall>s res r t c. total_transfer_size s = 0 \<longrightarrow>
            transfer_failed (final_cleanup_callback fl res r t c s))
    \<and> (let st' = run fl shuffle uuid4 all_files sf listing evs
                     (init_logic src dst workers mb limit False copy mklink)
        in total_transfer_size st' = 0
         \<and> (pending st' = [] \<longrightarrow> transfer_failed st' \<and> \<not> teardown_done st'))"
proof -
  let ?st0 = "init_logic src dst workers mb limit False copy mklink"
  let ?st3 = "scan_and_plan fl shuffle uuid4 all_files
                (status_callback Msg_scan_and_plan None (status_callback Msg_prepare None ?st0))"
  let ?sub = "submit_plan (status_callback (Msg_start (length (task_plan ?st3))) None ?st3)"
  let ?st4 = "foldl (step fl) ?sub evs"
  let ?st5 = "if \<not> stop_event ?st4 then status_callback Msg_done (Some 100) ?st4 else ?st4"
  have run: "run fl shuffle uuid4 all_files sf listing evs ?st0 = finally_clause ?st5"
    using run_fresh[OF assms(1,3)] by (simp add: Let_def)
  have tot3: "total_transfer_size ?st3 = 0" using assms(2) by (simp add: scan_and_plan_total)
  have tot: "total_transfer_size ?sub = 0" using tot3 by simp
  have fc: "final_callbacks (status_callback (Msg_start (length (task_plan ?st3))) None ?st3) = []"
    by (simp add: init_logic_def)
  have pend: "pending ?sub \<noteq> []"
    using pending_submit_plan[OF fc] scan_and_plan_nonempty[OF assms(1,3)] by simp
  have k: "transfer_failed ?st4 \<or> pending ?st4 \<noteq> []"
    using steps_zero_total_failed[OF tot] pend by blast
  have td: "\<not> teardown_done ?st4" by (simp add: init_logic_def)
  have a: "total_transfer_size (finally_clause ?st5) = 0" using tot by simp
  have d: "pending (finally_clause ?st5) = [] \<longrightarrow>
      transfer_failed (finally_clause ?st5) \<and> \<not> teardown_done (finally_clause ?st5)"
    using k td by auto
  have u: "\<forall>s t failed. total_transfer_size s = 0 \<longrightarrow>
            fst (update_progress fl t failed s) = Some ZeroDivisionError"
    by (simp add: update_progress_raises)
  have c: "\<forall>s fut t result. total_transfer_size s = 0 \<and> map_of (active_futures s) fut = Some t \<longrightarrow>
            transfer_failed (cleanup_task_done_callback fl fut result s)"
    using cleanup_callback_zero_total by blast
  have m: "\<forall>s fut t. total_transfer_size s = 0 \<and> map_of (active_futures s) fut = Some t \<longrightarrow>
            transfer_failed (main_task_done_callback fl fut (Inr (LargeCleanup [])) s)"
    using main_callback_zero_total by blast
  have f: "\<forall>s res r t c. total_transfer_size s = 0 \<longrightarrow>
            transfer_failed (final_cleanup_callback fl res r t c s)"
    using final_cleanup_callback_failed by blast
  have r: "let st' = run fl shuffle uuid4 all_files sf listing evs ?st0
        in total_transfer_size st' = 0
         \<and> (pending st' = [] \<longrightarrow> transfer_failed st' \<and> \<not> teardown_done st')"
    unfolding Let_def run using a d by blast
  show ?thesis by (intro conjI u c m f r)
qed

lemma finally_clause_queue [simp]:
  "completed_task_queue (finally_clause st) = completed_task_queue st"
  by (simp add: finally_clause_def Let_def status_callback_def)

lemma ex_copy_scan:
  "plan_phase (\<lambda>x. x) (\<lambda>xs. xs) ex_uuid4 ex_zero_files None None ex_copy_logic
   = ex_copy_logic\<lparr> task_plan := [Pack (ex_uuid4 0) 1 [ex_file ''a'' 0, ex_file ''b'' 0],
                                     Pack (ex_uuid4 1) 2 [ex_file ''c'' 0]],
                     status_calls := [(Msg_prepare, None), (Msg_scan_and_plan, None),
                                      (Msg_scanning, None), (Msg_threshold 16, None)] \<rparr>"
  by (simp add: plan_phase_def scan_and_plan_def Let_def large_file_threshold_def ex_zero_files_def
      ex_file_def ex_copy_logic_def init_logic_def status_callback_def classify_files.simps
      ideal_files_per_pack_def chunk_files_def chunk_step_def seal_cond_def seal_chunk_def)

lemma ex_copy_first:
  "foldl (step (\<lambda>x. x))
     (submit_plan (status_callback (Msg_start 2) None
        (ex_copy_logic\<lparr> task_plan := [Pack (ex_uuid4 0) 1 [ex_file ''a'' 0, ex_file ''b'' 0],
                                     Pack (ex_uuid4 1) 2 [ex_file ''c'' 0]],
                     status_calls := [(Msg_prepare, None), (Msg_scan_and_plan, None),
                                      (Msg_scanning, None), (Msg_threshold 16, None)] \<rparr>)))
     (take 1 ex_copy_events)
   = ex_copy_logic\<lparr> task_plan := [Pack (ex_uuid4 0) 1 [ex_file ''a'' 0, ex_file ''b'' 0],
                                     Pack (ex_uuid4 1) 2 [ex_file ''c'' 0]],
                     status_calls := [(Msg_prepare, None), (Msg_scan_and_plan, None),
                                      (Msg_scanning, None), (Msg_threshold 16, None),
                                      (Msg_start 2, None)],
                     active_futures := [(MainFuture 1, Pack (ex_uuid4 1) 2 [ex_file ''c'' 0]),
                                        (CleanupFuture 2, Pack (ex_uuid4 0) 1 [ex_file ''a'' 0, ex_file ''b'' 0])],
                     next_future := 3 \<rparr>"
  by (simp add: submit_plan_def status_callback_def ex_copy_logic_def init_logic_def
      ex_copy_events_def main_task_done_callback_def submit_cleanup_def Let_def)

lemma ex_copy_exec:
  "pending (foldl (step (\<lambda>x. x))
     (submit_plan (status_callback (Msg_start 2) None
        (ex_copy_logic\<lparr> task_plan := [Pack (ex_uuid4 0) 1 [ex_file ''a'' 0, ex_file ''b'' 0],
                                     Pack (ex_uuid4 1) 2 [ex_file ''c'' 0]],
                     status_calls := [(Msg_prepare, None), (Msg_scan_and_plan, None),
                                      (Msg_scanning, None), (Msg_threshold 16, None)] \<rparr>)))
     ex_copy_events) = []
   \<and> completed_task_queue (foldl (step (\<lambda>x. x))
     (submit_plan (status_callback (Msg_start 2) None
        (ex_copy_logic\<lparr> task_plan := [Pack (ex_uuid4 0) 1 [ex_file ''a'' 0, ex_file ''b'' 0],
                                     Pack (ex_uuid4 1) 2 [ex_file ''c'' 0]],
                     status_calls := [(Msg_prepare, None), (Msg_scan_and_plan, None),
                                      (Msg_scanning, None), (Msg_threshold 16, None)] \<rparr>)))
     ex_copy_events) = [ex_uuid4 0, ex_uuid4 1]"
  by (simp add: submit_plan_def status_callback_def ex_copy_logic_def init_logic_def
      ex_copy_events_def main_task_done_callback_def cleanup_task_done_callback_def
      submit_cleanup_def complete_task_def task_failed_handler_def update_progress_def
      mark_task_complete_def Let_def pending_def)

theorem C9_zero_total_fails_witness:
  "ex_zero_files \<noteq> [] \<and> sum_sizes ex_zero_files = 0 \<and> copy_only ex_copy_logic
   \<and> total_transfer_size (execute_plan (\<lambda>x. x) (take 1 ex_copy_events)
        (status_callback (Msg_start 2) None
           (plan_phase (\<lambda>x. x) (\<lambda>xs. xs) ex_uuid4 ex_zero_files None None ex_copy_logic))) = 0
   \<and> map_of (active_futures (execute_plan (\<lambda>x. x) (take 1 ex_copy_events)
        (status_callback (Msg_start 2) None
           (plan_phase (\<lambda>x. x) (\<lambda>xs. xs) ex_uuid4 ex_zero_files None None ex_copy_logic))))
        (CleanupFuture 2) = Some (Pack (ex_uuid4 0) 1 [ex_file ''a'' 0, ex_file ''b'' 0])
   \<and> \<not> transfer_failed (execute_plan (\<lambda>x. x) (take 1 ex_copy_events)
        (status_callback (Msg_start 2) None
           (plan_phase (\<lambda>x. x) (\<lambda>xs. xs) ex_uuid4 ex_zero_files None None ex_copy_logic)))
   \<and> transfer_failed (cleanup_task_done_callback (\<lambda>x. x) (CleanupFuture 2) (Inr ())
        (execute_plan (\<lambda>x. x) (take 1 ex_copy_events)
           (status_callback (Msg_start 2) None
              (plan_phase (\<lambda>x. x) (\<lambda>xs. xs) ex_uuid4 ex_zero_files None None ex_copy_logic))))
   \<and> pending (run (\<lambda>x. x) (\<lambda>xs. xs) ex_uuid4 ex_zero_files None None ex_copy_events ex_copy_logic) = []
   \<and> transfer_failed (run (\<lambda>x. x) (\<lambda>xs. xs) ex_uuid4 ex_zero_files None None ex_copy_events ex_copy_logic)
   \<and> \<not> teardown_done (run (\<lambda>x. x) (\<lambda>xs. xs) ex_uuid4 ex_zero_files None None ex_copy_events ex_copy_logic)
   \<and> completed_task_queue (run (\<lambda>x. x) (\<lambda>xs. xs) ex_uuid4 ex_zero_files None None ex_copy_events ex_copy_logic)
       = [ex_uuid4 0, ex_uuid4 1]"
proof -
  let ?r = "run (\<lambda>x. x) (\<lambda>xs. xs) ex_uuid4 ex_zero_files None None ex_copy_events ex_copy_logic"
  let ?planned = "ex_copy_logic\<lparr> task_plan := [Pack (ex_uuid4 0) 1 [ex_file ''a'' 0, ex_file ''b'' 0],
                                     Pack (ex_uuid4 1) 2 [ex_file ''c'' 0]],
                     status_calls := [(Msg_prepare, None), (Msg_scan_and_plan, None),
                                      (Msg_scanning, None), (Msg_threshold 16, None)] \<rparr>"
  let ?s1 = "execute_plan (\<lambda>x. x) (take 1 ex_copy_events)
        (status_callback (Msg_start 2) None
           (plan_phase (\<lambda>x. x) (\<lambda>xs. xs) ex_uuid4 ex_zero_files None None ex_copy_logic))"
  have h1: "ex_zero_files \<noteq> []" by (simp add: ex_zero_files_def)
  have h2: "sum_sizes ex_zero_files = 0" by (simp add: ex_zero_files_def ex_file_def)
  have h3: "\<forall>xs::file_info list. mset ((\<lambda>xs. xs) xs) = mset xs" by simp
  have co: "copy_only ex_copy_logic" by (simp add: ex_copy_logic_def init_logic_def)
  have ep: "execute_plan (\<lambda>x. x) (take 1 ex_copy_events) (status_callback (Msg_start 2) None ?planned)
      = foldl (step (\<lambda>x. x)) (submit_plan (status_callback (Msg_start 2) None ?planned))
          (take 1 ex_copy_events)"
    by (simp add: execute_plan_def)
  have s1: "total_transfer_size ?s1 = 0
      \<and> map_of (active_futures ?s1) (CleanupFuture 2)
          = Some (Pack (ex_uuid4 0) 1 [ex_file ''a'' 0, ex_file ''b'' 0])
      \<and> \<not> transfer_failed ?s1"
    unfolding ex_copy_scan ep ex_copy_first
    by (simp add: ex_copy_logic_def init_logic_def)
  note th = C9_zero_total_fails[OF h1 h2 h3, of "\<lambda>x. x" ex_uuid4 None None ex_copy_events
      "py ''C:/data''" "py ''D:/backup''" 2 64 20000 True False, folded ex_copy_logic_def,
      unfolded Let_def]
  have cb: "transfer_failed (cleanup_task_done_callback (\<lambda>x. x) (CleanupFuture 2) (Inr ()) ?s1)"
    using conjunct1[OF conjunct2[OF th]] s1 by blast
  have rp: "resume_phase (\<lambda>x. x) None ex_copy_logic = ex_copy_logic"
    by (simp add: resume_phase_def ex_copy_logic_def init_logic_def)
  have se: "\<not> stop_event ex_copy_logic" by (simp add: ex_copy_logic_def init_logic_def)
  have len: "length (task_plan ?planned) = 2" by simp
  have ne: "task_plan ?planned \<noteq> []" by simp
  have rf: "?r = finally_clause
      (let st4 = foldl (step (\<lambda>x. x)) (submit_plan (status_callback (Msg_start 2) None ?planned))
                   ex_copy_events
       in if \<not> stop_event st4 then status_callback Msg_done (Some 100) st4 else st4)"
    unfolding run_def rp ex_copy_scan execute_phase_def execute_plan_def Let_def len
    using se ne by (simp add: status_callback_def)
  have ev: "pending ?r = [] \<and> completed_task_queue ?r = [ex_uuid4 0, ex_uuid4 1]"
    unfolding rf Let_def using ex_copy_exec by simp
  have fin: "transfer_failed ?r \<and> \<not> teardown_done ?r"
    using conjunct2[OF conjunct2[OF conjunct2[OF conjunct2[OF th]]]] ev by blast
  show ?thesis using h1 h2 co s1 cb ev fin by blast
qed

lemma progress_percent_mono:
  assumes "mono fl" "0 < T" "a \<le> b"
  shows "progress_percent fl a T \<le> progress_percent fl b T"
proof -
  have "(of_int a :: rat) / of_int T \<le> of_int b / of_int T"
    using assms(2,3) by (simp add: divide_right_mono)
  then have "fl (of_int a / of_int T) * 100 \<le> fl (of_int b / of_int T) * 100"
    using assms(1) by (simp add: monoD)
  then show ?thesis using assms(1) by (simp add: progress_percent_def monoD)
qed

lemma progress_percent_le_100:
  assumes "mono fl" "fl 1 = 1" "fl 100 = 100" "0 < T" "a \<le> T"
  shows "progress_percent fl a T \<le> 100"
proof -
  have "(of_int a :: rat) / of_int T \<le> 1" using assms(4,5) by simp
  then have "fl (of_int a / of_int T) \<le> 1" using assms(1,2) by (metis monoD)
  then have "fl (of_int a / of_int T) * 100 \<le> 100" by simp
  then have "fl (fl (of_int a / of_int T) * 100) \<le> fl 100" using assms(1) by (simp add: monoD)
  then show ?thesis using assms(3) by (simp add: progress_percent_def)
qed

lemma values_ok_credit:
  assumes "mono fl" "values_ok fl st" "0 \<le> sz"
    "total_transfer_size st' = total_transfer_size st"
    "processed_size st' = processed_size st + sz"
    "progress_values st' = progress_values st
     \<or> progress_values st' = progress_values st
          @ [progress_percent fl (processed_size st + sz) (total_transfer_size st)]"
  shows "values_ok fl st'"
proof -
  let ?T = "total_transfer_size st"
  have le: "progress_percent fl (processed_size st) ?T \<le> progress_percent fl (processed_size st + sz) ?T"
    using assms(1,2,3) by (intro progress_percent_mono) (auto simp: values_ok_def)
  have old: "\<forall>p \<in> set (progress_values st). p \<le> progress_percent fl (processed_size st + sz) ?T"
    using assms(2) le by (auto simp: values_ok_def)
  have "sorted (progress_values st') \<and>
      (\<forall>p \<in> set (progress_values st'). p \<le> progress_percent fl (processed_size st + sz) ?T)"
    using assms(6) assms(2) old by (auto simp: values_ok_def sorted_append)
  then show ?thesis using assms(2,3,4,5) by (simp add: values_ok_def)
qed

lemma sum_filter_le:
  fixes g :: "'v \<Rightarrow> int"
  assumes "\<forall>x \<in> set xs. 0 \<le> g x"
  shows "sum_list (map g (filter P xs)) \<le> sum_list (map g xs)"
  using assms by (induction xs) auto

lemma sum_delete_le:
  fixes f :: "'v \<Rightarrow> int"
  assumes "map_of al k = Some t" "\<forall>x \<in> snd ` set al. 0 \<le> f x"
  shows "sum_list (map f (map snd (AList.delete k al))) + f t \<le> sum_list (map f (map snd al))"
  using assms
proof (induction al)
  case Nil
  then show ?case by simp
next
  case (Cons p al)
  obtain k' v where p: "p = (k', v)" by (cases p)
  have nn: "0 \<le> sum_list (map f (map snd (AList.delete k al)))"
  proof (rule sum_list_nonneg)
    fix x assume "x \<in> set (map f (map snd (AList.delete k al)))"
    then show "0 \<le> x" using Cons.prems(2) by (auto simp: AList.delete_eq)
  qed
  show ?case
  proof (cases "k' = k")
    case True
    have "sum_list (map (f \<circ> snd) (filter (\<lambda>(k', _). k \<noteq> k') al))
        \<le> sum_list (map (f \<circ> snd) al)"
      using Cons.prems(2) by (intro sum_filter_le) auto
    then show ?thesis using True Cons.prems p by (simp add: AList.delete_eq)
  next
    case False
    then show ?thesis using Cons p by (simp add: AList.delete_eq)
  qed
qed

lemma set_delete_subset: "snd ` set (AList.delete k al) \<subseteq> snd ` set al"
  by (auto simp: AList.delete_eq)

lemma sum_update_le:
  fixes f :: "'v \<Rightarrow> int"
  assumes "\<forall>x \<in> snd ` set al. 0 \<le> f x"
  shows "sum_list (map f (map snd (AList.update k v al))) \<le> sum_list (map f (map snd al)) + f v"
  using assms by (induction al) auto

lemma set_update_subset: "snd ` set (AList.update k v al) \<subseteq> insert v (snd ` set al)"
  by (induction al) auto

lemma sum_filter_partition:
  "sum_list (map f (filter P xs)) + sum_list (map f (filter (\<lambda>x. \<not> P x) xs))
     = (sum_list (map f xs) :: int)"
  by (induction xs) auto

lemma pending_credit [simp]:
  "pending (task_failed_handler fl t st) = pending st"
  "pending (complete_task fl t st) = pending st"
  "pending (final_cleanup_callback fl res r t c st) = pending st"
  by (simp_all add: pending_def)

lemma values_ok_failed:
  assumes "mono fl" "values_ok fl st" "0 \<le> task_size t"
  shows "values_ok fl (task_failed_handler fl t st)"
  using task_failed_handler_values[of fl t st]
  by (intro values_ok_credit[OF assms]) auto

lemma values_ok_complete:
  assumes "mono fl" "values_ok fl st" "0 \<le> task_size t"
  shows "values_ok fl (complete_task fl t st)"
proof -
  have "total_transfer_size st \<noteq> 0" using assms(2) by (simp add: values_ok_def)
  from complete_task_nonzero_total[OF this, of fl t]
  show ?thesis by (intro values_ok_credit[OF assms]) auto
qed

lemma processed_complete:
  "values_ok fl st \<Longrightarrow> processed_size (complete_task fl t st) = processed_size st + task_size t"
  using complete_task_nonzero_total[of st fl t] by (simp add: values_ok_def)

lemma values_ok_final:
  assumes "mono fl" "values_ok fl st" "0 \<le> task_size t"
  shows "values_ok fl (final_cleanup_callback fl res r t c st)
       \<and> processed_size (final_cleanup_callback fl res r t c st) = processed_size st + task_size t"
  using values_ok_failed[OF assms] values_ok_complete[OF assms] processed_complete[OF assms(2)]
  by (auto simp: final_cleanup_callback_def split: sum.splits)

lemma budget_after_credit:
  assumes "budget_ok st (task_size t)" "pending st' = pending st"
    "processed_size st' = processed_size st + task_size t"
    "total_transfer_size st' = total_transfer_size st"
  shows "budget_ok st' 0"
  using assms by (simp add: budget_ok_def)

lemma fold_final_credit:
  assumes "mono fl" "values_ok fl st"
    "budget_ok st (sum_list (map (\<lambda>(d, t, c). task_size t) cbs))"
    "\<forall>(d, t, c) \<in> set cbs. 0 \<le> task_size t"
  shows "values_ok fl (foldl (\<lambda>s (d', t, c). final_cleanup_callback fl res r t c s) st cbs)
       \<and> budget_ok (foldl (\<lambda>s (d', t, c). final_cleanup_callback fl res r t c s) st cbs) 0"
  using assms(2,3,4)
proof (induction cbs arbitrary: st)
  case Nil
  then show ?case by simp
next
  case (Cons cb cbs)
  obtain d t c where cb: "cb = (d, t, c)" by (cases cb)
  let ?s = "final_cleanup_callback fl res r t c st"
  have nn: "0 \<le> task_size t" using Cons.prems(3) cb by simp
  have v: "values_ok fl ?s" "processed_size ?s = processed_size st + task_size t"
    using values_ok_final[OF assms(1) Cons.prems(1) nn] by simp_all
  have b: "budget_ok ?s (sum_list (map (\<lambda>(d, t, c). task_size t) cbs))"
    using Cons.prems(2) v(2) by (simp add: budget_ok_def cb)
  show ?case using Cons.IH[OF v(1) b] Cons.prems(3) by (simp add: cb)
qed

lemma pending_alt:
  "pending st = map snd (active_futures st) @ map (fst \<circ> snd) (final_callbacks st)"
  by (simp add: pending_def comp_def case_prod_unfold)

lemma budget_ok_alt:
  "budget_ok st extra \<longleftrightarrow>
     (\<forall>x \<in> snd ` set (active_futures st). 0 \<le> task_size x)
     \<and> (\<forall>x \<in> set (final_callbacks st). 0 \<le> task_size (fst (snd x)))
     \<and> processed_size st + extra
         + (sum_list (map task_size (map snd (active_futures st)))
            + sum_list (map task_size (map (fst \<circ> snd) (final_callbacks st))))
       \<le> total_transfer_size st"
  by (auto simp: budget_ok_def pending_alt)

lemma budget_delete:
  assumes "budget_ok st 0" "map_of (active_futures st) fut = Some t"
  shows "budget_ok (st\<lparr> active_futures := AList.delete fut (active_futures st) \<rparr>) (task_size t)
       \<and> 0 \<le> task_size t"
proof -
  let ?al = "active_futures st"
  have nn: "\<forall>x \<in> snd ` set ?al. 0 \<le> task_size x"
    using assms(1) by (simp add: budget_ok_alt)
  have t: "t \<in> snd ` set ?al" using assms(2) by (metis map_of_SomeD snd_conv image_eqI)
  have s: "sum_list (map task_size (map snd (AList.delete fut ?al))) + task_size t
      \<le> sum_list (map task_size (map snd ?al))"
    using sum_delete_le[OF assms(2) nn] .
  have sub: "snd ` set (AList.delete fut ?al) \<subseteq> snd ` set ?al" by (rule set_delete_subset)
  have d: "\<forall>x \<in> snd ` set (AList.delete fut ?al). 0 \<le> task_size x" using sub nn by blast
  have tn: "0 \<le> task_size t" using nn t by blast
  show ?thesis
    using assms(1) s d tn by (simp add: budget_ok_alt)
qed

lemma budget_submit_cleanup:
  assumes "budget_ok st (task_size t)" "0 \<le> task_size t"
  shows "budget_ok (submit_cleanup t st) 0"
proof -
  let ?al = "active_futures st"
  let ?k = "CleanupFuture (next_future st)"
  have nn: "\<forall>x \<in> snd ` set ?al. 0 \<le> task_size x"
    using assms(1) by (simp add: budget_ok_alt)
  have s: "sum_list (map task_size (map snd (AList.update ?k t ?al)))
      \<le> sum_list (map task_size (map snd ?al)) + task_size t"
    using sum_update_le[OF nn] .
  have sub: "snd ` set (AList.update ?k t ?al) \<subseteq> insert t (snd ` set ?al)"
    by (rule set_update_subset)
  have "\<forall>x \<in> snd ` set (AList.update ?k t ?al). 0 \<le> task_size x"
    using sub nn assms(2) by blast
  then show ?thesis
    using assms s by (simp add: budget_ok_alt submit_cleanup_def)
qed

lemma values_ok_cong:
  assumes "values_ok fl st" "total_transfer_size st' = total_transfer_size st"
    "processed_size st' = processed_size st" "status_calls st' = status_calls st"
  shows "values_ok fl st'"
  using assms by (simp add: values_ok_def progress_values_def)

lemma callback_found_credit:
  assumes "mono fl" "values_ok fl st" "budget_ok st 0" "map_of (active_futures st) fut = Some t"
    and st1: "st1 = st\<lparr> active_futures := AList.delete fut (active_futures st) \<rparr>"
  shows "values_ok fl st1 \<and> budget_ok st1 (task_size t) \<and> 0 \<le> task_size t
       \<and> values_ok fl (task_failed_handler fl t st1) \<and> budget_ok (task_failed_handler fl t st1) 0
       \<and> values_ok fl (complete_task fl t st1) \<and> budget_ok (complete_task fl t st1) 0
       \<and> values_ok fl (submit_cleanup t st1) \<and> budget_ok (submit_cleanup t st1) 0"
proof -
  have v1: "values_ok fl st1"
    unfolding st1 by (rule values_ok_cong[OF assms(2)]) simp_all
  have b1: "budget_ok st1 (task_size t)" "0 \<le> task_size t"
    using budget_delete[OF assms(3,4)] by (simp_all add: st1)
  have f: "values_ok fl (task_failed_handler fl t st1)"
    using values_ok_failed[OF assms(1) v1 b1(2)] .
  have fb: "budget_ok (task_failed_handler fl t st1) 0"
    by (rule budget_after_credit[OF b1(1)]) simp_all
  have c: "values_ok fl (complete_task fl t st1)"
    using values_ok_complete[OF assms(1) v1 b1(2)] .
  have cb: "budget_ok (complete_task fl t st1) 0"
    by (rule budget_after_credit[OF b1(1)]) (simp_all add: processed_complete[OF v1])
  have s: "values_ok fl (submit_cleanup t st1)"
    by (rule values_ok_cong[OF v1]) (simp_all add: submit_cleanup_def)
  have sb: "budget_ok (submit_cleanup t st1) 0"
    using budget_submit_cleanup[OF b1] .
  show ?thesis using v1 b1 f fb c cb s sb by simp
qed

lemma step_credit:
  assumes "mono fl" "values_ok fl st" "budget_ok st 0"
  shows "values_ok fl (step fl st ev) \<and> budget_ok (step fl st ev) 0"
proof (cases ev)
  case (MainDone n result)
  show ?thesis
  proof (cases "map_of (active_futures st) (MainFuture n)")
    case None
    then have "step fl st ev = st" using MainDone by (simp add: main_task_done_callback_def)
    then show ?thesis using assms by simp
  next
    case (Some t)
    define st1 where "st1 = st\<lparr> active_futures := AList.delete (MainFuture n) (active_futures st) \<rparr>"
    note cr = callback_found_credit[OF assms Some st1_def]
    have cb: "step fl st ev =
        (case result of
           Inl e \<Rightarrow> task_failed_handler fl t st1
         | Inr (PackCleanup (Some d) c) \<Rightarrow> st1\<lparr> final_callbacks := final_callbacks st1 @ [(d, t, c)] \<rparr>
         | Inr (PackCleanup None c) \<Rightarrow> submit_cleanup t st1
         | Inr (LargeCleanup srcs) \<Rightarrow>
             if srcs \<noteq> [] then submit_cleanup t st1 else complete_task fl t st1)"
      unfolding MainDone step.simps main_task_done_callback_def Some st1_def Let_def
      by simp
    show ?thesis
    proof (cases result)
      case (Inl e)
      then show ?thesis using cb cr by simp
    next
      case (Inr mr)
      show ?thesis
      proof (cases mr)
        case (PackCleanup dopt c)
        show ?thesis
        proof (cases dopt)
          case None
          then show ?thesis using cb cr Inr PackCleanup by simp
        next
          case (Some d)
          let ?s = "st1\<lparr> final_callbacks := final_callbacks st1 @ [(d, t, c)] \<rparr>"
          have v: "values_ok fl ?s"
            by (rule values_ok_cong[of fl st1]) (simp_all add: cr)
          have b: "budget_ok ?s 0"
            using conjunct1[OF conjunct2[OF cr]] conjunct1[OF conjunct2[OF conjunct2[OF cr]]]
            by (simp add: budget_ok_alt)
          have "step fl st ev = ?s" using cb Inr PackCleanup Some by simp
          then show ?thesis using v b by simp
        qed
      next
        case (LargeCleanup srcs)
        then show ?thesis using cb cr Inr by (cases "srcs = []") simp_all
      qed
    qed
  qed
next
  case (DeleteDone d res r)
  define cbs where "cbs = filter (\<lambda>(d', t, c). d' = d) (final_callbacks st)"
  define st1 where "st1 = st\<lparr> final_callbacks := filter (\<lambda>(d', t, c). d' \<noteq> d) (final_callbacks st) \<rparr>"
  have v1: "values_ok fl st1"
    unfolding st1_def by (rule values_ok_cong[OF assms(2)]) simp_all
  have part: "sum_list (map (task_size \<circ> (fst \<circ> snd)) cbs)
      + sum_list (map (task_size \<circ> (fst \<circ> snd)) (final_callbacks st1))
      = sum_list (map (task_size \<circ> (fst \<circ> snd)) (final_callbacks st))"
    using sum_filter_partition[of "task_size \<circ> (fst \<circ> snd)" "\<lambda>(d', t, c). d' = d" "final_callbacks st"]
    by (simp add: cbs_def st1_def case_prod_unfold)
  have eq: "sum_list (map (\<lambda>(d, t, c). task_size t) cbs) = sum_list (map (task_size \<circ> (fst \<circ> snd)) cbs)"
    by (simp add: comp_def case_prod_unfold)
  have fs: "\<forall>x \<in> set (final_callbacks st). 0 \<le> task_size (fst (snd x))"
    using assms(3) by (simp add: budget_ok_alt)
  have b1: "budget_ok st1 (sum_list (map (\<lambda>(d, t, c). task_size t) cbs))"
    unfolding eq budget_ok_alt
  proof (intro conjI)
    show "\<forall>x \<in> snd ` set (active_futures st1). 0 \<le> task_size x"
      using assms(3) by (simp add: budget_ok_alt st1_def)
    show "\<forall>x \<in> set (final_callbacks st1). 0 \<le> task_size (fst (snd x))"
      using fs by (simp add: st1_def)
    have "active_futures st1 = active_futures st" "processed_size st1 = processed_size st"
      "total_transfer_size st1 = total_transfer_size st" by (simp_all add: st1_def)
    then show "processed_size st1 + sum_list (map (task_size \<circ> (fst \<circ> snd)) cbs)
         + (sum_list (map task_size (map snd (active_futures st1)))
            + sum_list (map task_size (map (fst \<circ> snd) (final_callbacks st1))))
       \<le> total_transfer_size st1"
      using assms(3) part by (simp add: budget_ok_alt)
  qed
  have nn: "\<forall>(d, t, c) \<in> set cbs. 0 \<le> task_size t"
    using fs by (auto simp: cbs_def)
  have "step fl st ev = foldl (\<lambda>s (d', t, c). final_cleanup_callback fl res r t c s) st1 cbs"
    unfolding DeleteDone step.simps run_final_callbacks_def cbs_def st1_def by simp
  then show ?thesis
    using fold_final_credit[OF assms(1) v1 b1 nn, of res r] by simp
next
  case (CleanupDone n result)
  show ?thesis
  proof (cases "map_of (active_futures st) (CleanupFuture n)")
    case None
    then have "step fl st ev = st" using CleanupDone by (simp add: cleanup_task_done_callback_def)
    then show ?thesis using assms by simp
  next
    case (Some t)
    define st1 where "st1 = st\<lparr> active_futures := AList.delete (CleanupFuture n) (active_futures st) \<rparr>"
    note cr = callback_found_credit[OF assms Some st1_def]
    have cb: "step fl st ev =
        (case result of Inl e \<Rightarrow> task_failed_handler fl t st1
         | Inr u \<Rightarrow> complete_task fl t st1)"
      unfolding CleanupDone step.simps cleanup_task_done_callback_def Some st1_def Let_def
      by simp
    show ?thesis using cb cr by (cases result) simp_all
  qed
next
  case StopRequested
  have v: "values_ok fl (st\<lparr> stop_event := True \<rparr>)"
    by (rule values_ok_cong[OF assms(2)]) simp_all
  have b: "budget_ok (st\<lparr> stop_event := True \<rparr>) 0"
    using assms(3) by (simp add: budget_ok_alt)
  show ?thesis using StopRequested v b by simp
qed

lemma steps_credit:
  assumes "mono fl" "values_ok fl st" "budget_ok st 0"
  shows "values_ok fl (foldl (step fl) st evs) \<and> budget_ok (foldl (step fl) st evs) 0"
  using assms(2,3)
proof (induction evs arbitrary: st)
  case Nil
  then show ?case by simp
next
  case (Cons ev evs)
  show ?case using Cons.IH step_credit[OF assms(1) Cons.prems, of ev] by simp
qed

lemma zero_total_values_failed:
  "total_transfer_size st = 0 \<Longrightarrow>
   progress_values (task_failed_handler fl t st) = progress_values st"
  using task_failed_handler_values[of fl t st] by blast

lemma zero_total_values:
  assumes "total_transfer_size st = 0"
  shows "progress_values (task_failed_handler fl t st) = progress_values st"
    and "progress_values (complete_task fl t st) = progress_values st"
    and "progress_values (final_cleanup_callback fl res r t c st) = progress_values st"
proof -
  show h: "progress_values (task_failed_handler fl t st) = progress_values st"
    using zero_total_values_failed[OF assms] .
  let ?m = "mark_task_complete t st"
  obtain e st' where u: "update_progress fl t False ?m = (e, st')"
    by (cases "update_progress fl t False ?m")
  have e: "e = Some ZeroDivisionError"
    using update_progress_raises[of fl t False ?m] u assms by (simp add: mark_task_complete_def)
  have s: "st' = snd (update_progress fl t False ?m)" using u by simp
  have z: "total_transfer_size ?m = 0" using assms by (simp add: mark_task_complete_def)
  have "progress_values st' = progress_values ?m"
    unfolding s using update_progress_values[of fl t False ?m] z by auto
  moreover have "total_transfer_size st' = 0" unfolding s using z by simp
  ultimately have "progress_values (task_failed_handler fl t st') = progress_values ?m"
    using zero_total_values_failed[of st' fl t] by simp
  then show c: "progress_values (complete_task fl t st) = progress_values st"
    unfolding complete_task_def u e
    by (simp add: mark_task_complete_def progress_values_def)
  show "progress_values (final_cleanup_callback fl res r t c st) = progress_values st"
    using h c by (simp add: final_cleanup_callback_def split: sum.splits)
qed

lemma fold_final_zero_values:
  "total_transfer_size st = 0 \<Longrightarrow>
   progress_values (foldl (\<lambda>s (d', t, c). final_cleanup_callback fl res r t c s) st cbs)
     = progress_values st"
proof (induction cbs arbitrary: st)
  case Nil
  then show ?case by simp
next
  case (Cons cb cbs)
  obtain d t c where cb: "cb = (d, t, c)" by (cases cb)
  have "total_transfer_size (final_cleanup_callback fl res r t c st) = 0"
    using Cons.prems by simp
  then show ?case
    using Cons.IH[of "final_cleanup_callback fl res r t c st"] zero_total_values(3)[OF Cons.prems]
    by (simp add: cb)
qed

lemma progress_values_cong:
  "status_calls st' = status_calls st \<Longrightarrow> progress_values st' = progress_values st"
  by (simp add: progress_values_def)

lemma step_zero_values:
  assumes "total_transfer_size st = 0"
  shows "progress_values (step fl st ev) = progress_values st"
proof (cases ev)
  case (MainDone n result)
  show ?thesis
  proof (cases "map_of (active_futures st) (MainFuture n)")
    case None
    then show ?thesis using MainDone by (simp add: main_task_done_callback_def)
  next
    case (Some t)
    define st1 where "st1 = st\<lparr> active_futures := AList.delete (MainFuture n) (active_futures st) \<rparr>"
    have z: "total_transfer_size st1 = 0" using assms by (simp add: st1_def)
    have v1: "progress_values st1 = progress_values st"
      by (rule progress_values_cong) (simp add: st1_def)
    have sc: "progress_values (submit_cleanup t st1) = progress_values st"
      unfolding v1[symmetric] by (rule progress_values_cong) (simp add: submit_cleanup_def)
    have cb: "step fl st ev =
        (case result of
           Inl e \<Rightarrow> task_failed_handler fl t st1
         | Inr (PackCleanup (Some d) c) \<Rightarrow> st1\<lparr> final_callbacks := final_callbacks st1 @ [(d, t, c)] \<rparr>
         | Inr (PackCleanup None c) \<Rightarrow> submit_cleanup t st1
         | Inr (LargeCleanup srcs) \<Rightarrow>
             if srcs \<noteq> [] then submit_cleanup t st1 else complete_task fl t st1)"
      unfolding MainDone step.simps main_task_done_callback_def Some st1_def Let_def
      by simp
    have reg: "\<And>d c. progress_values (st1\<lparr> final_callbacks := final_callbacks st1 @ [(d, t, c)] \<rparr>)
        = progress_values st"
      unfolding v1[symmetric] by (rule progress_values_cong) simp
    show ?thesis
      unfolding cb using zero_total_values[OF z] v1 sc reg
      by (simp split: sum.splits main_result.splits option.splits)
  qed
next
  case (DeleteDone d res r)
  define st1 where "st1 = st\<lparr> final_callbacks := filter (\<lambda>(d', t, c). d' \<noteq> d) (final_callbacks st) \<rparr>"
  have z: "total_transfer_size st1 = 0" using assms by (simp add: st1_def)
  have v1: "progress_values st1 = progress_values st"
    by (rule progress_values_cong) (simp add: st1_def)
  show ?thesis
    unfolding DeleteDone step.simps run_final_callbacks_def st1_def[symmetric]
    using fold_final_zero_values[OF z] v1 by simp
next
  case (CleanupDone n result)
  show ?thesis
  proof (cases "map_of (active_futures st) (CleanupFuture n)")
    case None
    then show ?thesis using CleanupDone by (simp add: cleanup_task_done_callback_def)
  next
    case (Some t)
    define st1 where "st1 = st\<lparr> active_futures := AList.delete (CleanupFuture n) (active_futures st) \<rparr>"
    have z: "total_transfer_size st1 = 0" using assms by (simp add: st1_def)
    have v1: "progress_values st1 = progress_values st"
      by (rule progress_values_cong) (simp add: st1_def)
    have cb: "step fl st ev =
        (case result of Inl e \<Rightarrow> task_failed_handler fl t st1
         | Inr u \<Rightarrow> complete_task fl t st1)"
      unfolding CleanupDone step.simps cleanup_task_done_callback_def Some st1_def Let_def
      by simp
    show ?thesis unfolding cb using zero_total_values[OF z] v1 by (simp split: sum.splits)
  qed
next
  case StopRequested
  then show ?thesis by (simp add: progress_values_def)
qed

lemma steps_zero_values:
  "total_transfer_size st = 0 \<Longrightarrow> progress_values (foldl (step fl) st evs) = progress_values st"
proof (induction evs arbitrary: st)
  case Nil
  then show ?case by simp
next
  case (Cons ev evs)
  show ?case using Cons.IH[of "step fl st ev"] step_zero_values[OF Cons.prems, of fl ev] Cons.prems
    by simp
qed

lemma sum_sizes_mset: "mset xs = mset ys \<Longrightarrow> sum_sizes xs = sum_sizes ys"
proof -
  assume "mset xs = mset ys"
  then have "sum_mset (image_mset size_bytes (mset xs)) = sum_mset (image_mset size_bytes (mset ys))"
    by simp
  then show ?thesis by (simp add: sum_sizes_def flip: mset_map sum_mset_sum_list)
qed

lemma sum_sizes_filter_partition:
  "sum_sizes (filter P xs) + sum_sizes (filter (\<lambda>x. \<not> P x) xs) = sum_sizes xs"
  by (induction xs) auto

lemma sum_sizes_concat: "sum_list (map sum_sizes chs) = sum_sizes (concat chs)"
  by (induction chs) auto

lemma sum_sizes_nonneg: "\<forall>f \<in> set fs. 0 \<le> size_bytes f \<Longrightarrow> 0 \<le> sum_sizes fs"
  by (induction fs) auto

lemma number_moves_sizes:
  "map task_size (number_moves uuid4 k fs) = map size_bytes fs"
  by (induction fs arbitrary: k) (auto simp: task_size_def)

lemma number_packs_sizes:
  "map task_size (number_packs uuid4 k c chs) = map sum_sizes chs"
  by (induction chs arbitrary: k c) (auto simp: task_size_def)

lemma planned_sizes:
  assumes "all_files \<noteq> []" "task_plan st = []"
    "\<forall>f \<in> set all_files. 0 \<le> size_bytes f" "\<forall>xs. mset (shuffle xs) = mset xs"
  shows "sum_list (map task_size (task_plan (scan_and_plan fl shuffle uuid4 all_files st)))
           = sum_sizes all_files
       \<and> (\<forall>t \<in> set (task_plan (scan_and_plan fl shuffle uuid4 all_files st)). 0 \<le> task_size t)"
proof -
  define thr where "thr = large_file_threshold fl (sum_sizes all_files) (length all_files)"
  define large where "large = filter (\<lambda>f. thr \<le> of_int (size_bytes f)) all_files"
  define small where "small = filter (\<lambda>f. \<not> thr \<le> of_int (size_bytes f)) all_files"
  define chunks where "chunks = split_chunks
      (ideal_files_per_pack (max_workers st) (chunk_file_limit st) (shuffle small))
      (chunk_size_limit st) [] (shuffle small)"
  have plan: "task_plan (scan_and_plan fl shuffle uuid4 all_files st)
      = number_moves uuid4 0 large @ number_packs uuid4 (length large) 0 chunks"
    using assms(1,2)
    by (simp add: scan_and_plan_task_plan Let_def thr_def large_def small_def chunks_def)
  have cc: "concat chunks = shuffle small" by (simp add: chunks_def concat_split_chunks)
  have sh: "sum_sizes (shuffle small) = sum_sizes small" using assms(4) by (intro sum_sizes_mset) simp
  have sset: "set (shuffle small) = set small" using assms(4) by (metis set_mset_mset)
  have sizes: "map task_size (number_moves uuid4 0 large @ number_packs uuid4 (length large) 0 chunks)
      = map size_bytes large @ map sum_sizes chunks"
    by (simp add: number_moves_sizes number_packs_sizes)
  have "sum_list (map size_bytes large @ map sum_sizes chunks)
      = sum_sizes large + sum_sizes (concat chunks)"
    by (simp add: sum_sizes_concat) (simp add: sum_sizes_def)
  also have "\<dots> = sum_sizes large + sum_sizes small" by (simp only: cc sh)
  also have "\<dots> = sum_sizes all_files"
    unfolding large_def small_def by (rule sum_sizes_filter_partition)
  finally have total: "sum_list (map size_bytes large @ map sum_sizes chunks) = sum_sizes all_files" .
  have nn1: "\<forall>x \<in> set (map size_bytes large). 0 \<le> x" using assms(3) by (auto simp: large_def)
  have nn2: "\<forall>x \<in> set (map sum_sizes chunks). 0 \<le> x"
  proof
    fix x assume "x \<in> set (map sum_sizes chunks)"
    then obtain ch where ch: "ch \<in> set chunks" "x = sum_sizes ch" by auto
    have "set ch \<subseteq> set (concat chunks)" using ch(1) by auto
    then have "set ch \<subseteq> set all_files" unfolding cc sset by (auto simp: small_def)
    then show "0 \<le> x" unfolding ch(2) using assms(3) by (intro sum_sizes_nonneg) auto
  qed
  have "\<forall>x \<in> set (map task_size (task_plan (scan_and_plan fl shuffle uuid4 all_files st))). 0 \<le> x"
    unfolding plan sizes using nn1 nn2 by auto
  then show ?thesis unfolding plan using sizes total by auto
qed

lemma finally_clause_values [simp]:
  "progress_values (finally_clause st) = progress_values st"
  by (simp add: finally_clause_def Let_def progress_values_def status_callback_def
        List.map_filter_def)

lemma finally_clause_processed [simp]:
  "processed_size (finally_clause st) = processed_size st"
  by (simp add: finally_clause_def Let_def status_callback_def)

lemma sorted_snoc_100:
  "sorted vs \<Longrightarrow> \<forall>p \<in> set vs. p \<le> (100::rat) \<Longrightarrow> sorted (vs @ [100])"
  by (simp add: sorted_append)

lemma ex_progress_scan:
  "scan_and_plan (\<lambda>x. x) (\<lambda>xs. xs) ex_uuid4 ex_progress_files
         (status_callback Msg_scan_and_plan None (status_callback Msg_prepare None ex_logic))
   = ex_logic\<lparr> task_plan := [Pack (ex_uuid4 0) 1 [ex_file ''a'' 100, ex_file ''b'' 50],
                                Pack (ex_uuid4 1) 2 [ex_file ''c'' 150]],
                total_transfer_size := 300,
                status_calls := [(Msg_prepare, None), (Msg_scan_and_plan, None),
                                 (Msg_scanning, None), (Msg_threshold 16, None)] \<rparr>"
  by (simp add: scan_and_plan_def Let_def large_file_threshold_def ex_progress_files_def ex_file_def
      ex_logic_def init_logic_def status_callback_def classify_files.simps
      ideal_files_per_pack_def chunk_files_def chunk_step_def seal_cond_def seal_chunk_def)

lemma ex_progress_exec:
  "\<not> stop_event (foldl (step (\<lambda>x. x))
     (submit_plan (status_callback (Msg_start 2) None
        (ex_logic\<lparr> task_plan := [Pack (ex_uuid4 0) 1 [ex_file ''a'' 100, ex_file ''b'' 50],
                                Pack (ex_uuid4 1) 2 [ex_file ''c'' 150]],
                total_transfer_size := 300,
                status_calls := [(Msg_prepare, None), (Msg_scan_and_plan, None),
                                 (Msg_scanning, None), (Msg_threshold 16, None)] \<rparr>)))
     ex_progress_events)
   \<and> status_calls (foldl (step (\<lambda>x. x))
     (submit_plan (status_callback (Msg_start 2) None
        (ex_logic\<lparr> task_plan := [Pack (ex_uuid4 0) 1 [ex_file ''a'' 100, ex_file ''b'' 50],
                                Pack (ex_uuid4 1) 2 [ex_file ''c'' 150]],
                total_transfer_size := 300,
                status_calls := [(Msg_prepare, None), (Msg_scan_and_plan, None),
                                 (Msg_scanning, None), (Msg_threshold 16, None)] \<rparr>)))
     ex_progress_events)
   = [(Msg_prepare, None), (Msg_scan_and_plan, None), (Msg_scanning, None),
      (Msg_threshold 16, None), (Msg_start 2, None), (Msg_progress 50, Some 50),
      (Msg_task_failed, Some 100)]"
  by (simp add: submit_plan_def status_callback_def ex_logic_def init_logic_def
      ex_progress_events_def main_task_done_callback_def run_final_callbacks_def
      final_cleanup_callback_def complete_task_def task_failed_handler_def update_progress_def
      mark_task_complete_def Let_def task_size_def ex_file_def progress_percent_def
      int_of_float_def)

section \<open>Recovery planning: the submission order\<close>

text \<open>The state of a resumed run whose session loads, when it starts to execute.\<close>

lemma resumed_plan:
  assumes "resume_session st"
    and "sd_source_dir sd = Some (source_dir st)" and "sd_target_dir sd = Some (target_dir st)"
  shows "resume_phase fl (Some sd) st = snd (load_session fl (Some sd) (status_callback Msg_resuming None st))"
    and "plan_phase fl shuffle uuid4 all_files (Some sd) (Some listing) (resume_phase fl (Some sd) st)
         = recovery_loop (pack_id_to_task (get_default [] (sd_task_plan sd))) listing
             ((resume_phase fl (Some sd) st)\<lparr> recovery_tasks := [] \<rparr>)"
    and "plan_phase fl shuffle uuid4 all_files (Some sd) None (resume_phase fl (Some sd) st)
         = (resume_phase fl (Some sd) st)\<lparr> recovery_tasks := [] \<rparr>"
    and "completed_task_ids (resume_phase fl (Some sd) st)
         = set (get_default [] (sd_completed_task_ids sd))"
    and "task_plan (resume_phase fl (Some sd) st)
         = filter (\<lambda>t. task_id t \<notin> set (get_default [] (sd_completed_task_ids sd)))
             (get_default [] (sd_task_plan sd))"
    and "stop_event (resume_phase fl (Some sd) st) = stop_event st"
    and "next_future (resume_phase fl (Some sd) st) = next_future st"
proof -
  let ?st0 = "status_callback Msg_resuming None st"
  let ?st1 = "snd (load_session fl (Some sd) ?st0)"
  have ok: "fst (load_session fl (Some sd) ?st0)"
    using assms(2,3) by (simp add: load_session_def status_callback_def Let_def)
  show rp: "resume_phase fl (Some sd) st = ?st1"
    using assms(1) ok
    by (cases "load_session fl (Some sd) ?st0") (auto simp: resume_phase_def)
  have rs: "resume_session ?st1"
    using assms
    by (simp add: load_session_def status_callback_def Let_def load_tasks_resume_session)
  show "plan_phase fl shuffle uuid4 all_files (Some sd) (Some listing) (resume_phase fl (Some sd) st)
         = recovery_loop (pack_id_to_task (get_default [] (sd_task_plan sd))) listing
             ((resume_phase fl (Some sd) st)\<lparr> recovery_tasks := [] \<rparr>)"
    unfolding rp using rs by (simp add: plan_phase_def plan_recovery_tasks_def Let_def)
  show "plan_phase fl shuffle uuid4 all_files (Some sd) None (resume_phase fl (Some sd) st)
         = (resume_phase fl (Some sd) st)\<lparr> recovery_tasks := [] \<rparr>"
    unfolding rp using rs by (simp add: plan_phase_def plan_recovery_tasks_def Let_def)
  show "completed_task_ids (resume_phase fl (Some sd) st)
         = set (get_default [] (sd_completed_task_ids sd))"
    unfolding rp using assms(2,3)
    by (simp add: load_session_def status_callback_def Let_def load_tasks_fields)
  show "task_plan (resume_phase fl (Some sd) st)
         = filter (\<lambda>t. task_id t \<notin> set (get_default [] (sd_completed_task_ids sd)))
             (get_default [] (sd_task_plan sd))"
    unfolding rp using assms(2,3)
    by (simp add: load_session_def status_callback_def Let_def load_tasks_plan)
  have lt: "\<And>ts s. stop_event (load_tasks ts s) = stop_event s
      \<and> next_future (load_tasks ts s) = next_future s"
  proof -
    fix ts s show "stop_event (load_tasks ts s) = stop_event s
      \<and> next_future (load_tasks ts s) = next_future s"
      by (induction ts arbitrary: s) (auto split: task.splits)
  qed
  show "stop_event (resume_phase fl (Some sd) st) = stop_event st"
    unfolding rp using assms(2,3)
    by (simp add: load_session_def status_callback_def Let_def lt)
  show "next_future (resume_phase fl (Some sd) st) = next_future st"
    unfolding rp using assms(2,3)
    by (simp add: load_session_def status_callback_def Let_def lt)
qed

lemma recovery_loop_other_fields:
  "stop_event (recovery_loop m items st) = stop_event st"
  "resume_session (recovery_loop m items st) = resume_session st"
proof -
  have i: "\<And>item s. stop_event (recovery_item m item s) = stop_event s
      \<and> resume_session (recovery_item m item s) = resume_session s"
    by (simp add: recovery_item_def split: option.splits)
  show "stop_event (recovery_loop m items st) = stop_event st"
    by (induction items arbitrary: st) (simp_all add: i)
  show "resume_session (recovery_loop m items st) = resume_session st"
    by (induction items arbitrary: st) (simp_all add: i)
qed

lemma execute_plan_events:
  "execute_plan fl evs st = foldl (step fl) (execute_plan fl [] st) evs
   \<or> (task_plan st = [] \<and> recovery_tasks st = [])"
  by (simp add: execute_plan_def)

text \<open>
  Claim C4. On a resumed run whose session loads, every stored pack task that is
  not completed and whose archive \<open>pack_<pack_id>.7z\<close> is listed in the cache
  directory becomes a \<open>resume_extract\<close> task with the same task id, pack id and
  files among the recovery tasks, and no task with its id stays in the task plan.
  \<open>_execute_plan\<close> submits the recovery tasks, in order, and then the tasks of
  the plan, and \<open>run\<close> handles the events of the pools from there. The pack ids
  of the stored packs are distinct, as the planner numbers them. The loop
  appends one recovery task for each listed name that yields the pack id: when no
  two listed archive names yield the same pack id, no pack id occurs twice among
  the recovery tasks, and when the stored task ids are distinct as well, no task
  id is submitted twice.
\<close>

theorem C4_recovery_first:
  assumes "resume_session st" and "\<not> stop_event st"
    and "sd_source_dir sd = Some (source_dir st)" and "sd_target_dir sd = Some (target_dir st)"
    and "distinct (map pack_id (filter is_pack (get_default [] (sd_task_plan sd))))"
    and "Pack tid pid fs \<in> set (get_default [] (sd_task_plan sd))"
    and "tid \<notin> set (get_default [] (sd_completed_task_ids sd))"
    and "archive_name pid \<in> set listing"
  shows "let st2 = plan_phase fl shuffle uuid4 all_files (Some sd) (Some listing)
                     (resume_phase fl (Some sd) st);
             start = status_callback (Msg_start (length (task_plan st2))) None st2;
             submitted = recovery_tasks st2 @ task_plan st2
         in ResumeExtract tid pid fs \<in> set (recovery_tasks st2)
          \<and> (\<forall>u \<in> set (task_plan st2). task_id u \<noteq> tid)
          \<and> (distinct (listed_pack_ids listing) \<longrightarrow> distinct (map pack_id (recovery_tasks st2)))
          \<and> (distinct (listed_pack_ids listing)
               \<and> distinct (map task_id (get_default [] (sd_task_plan sd)))
               \<longrightarrow> distinct (map task_id submitted))
          \<and> active_futures (execute_plan fl [] start)
              = zip (map MainFuture [next_future st2..<next_future st2 + length submitted]) submitted
          \<and> execute_plan fl evs start = foldl (step fl) (execute_plan fl [] start) evs
          \<and> run fl shuffle uuid4 all_files (Some sd) (Some listing) evs st
              = finally_clause
                  (let st' = execute_plan fl evs start
                   in if \<not> stop_event st' then status_callback Msg_done (Some 100) st' else st')"
proof -
  let ?stored = "get_default [] (sd_task_plan sd)"
  let ?done = "set (get_default [] (sd_completed_task_ids sd))"
  let ?m = "pack_id_to_task ?stored"
  let ?st1 = "resume_phase fl (Some sd) st"
  let ?st1' = "?st1\<lparr> recovery_tasks := [] \<rparr>"
  let ?st2 = "recovery_loop ?m listing ?st1'"
  let ?R = "recovered ?m ?done listing"
  let ?conv = "\<lambda>t. ResumeExtract (task_id t) (pack_id t) (files t)"
  let ?start = "status_callback (Msg_start (length (task_plan ?st2))) None ?st2"
  let ?sub = "recovery_tasks ?st2 @ task_plan ?st2"
  note rp = resumed_plan[OF assms(1,3,4), of fl]
  have pp: "plan_phase fl shuffle uuid4 all_files (Some sd) (Some listing) ?st1 = ?st2"
    by (rule rp(2))
  have comp: "completed_task_ids ?st1' = ?done" using rp(4) by simp
  have m: "?m pid = Some (Pack tid pid fs)"
    using pack_id_to_task_lookup[OF assms(5,6)] by (simp add: is_pack_def)
  have inc: "task_id (Pack tid pid fs) \<notin> completed_task_ids ?st1'"
    using assms(7) comp by simp
  have conv: "ResumeExtract tid pid fs \<in> set (recovery_tasks ?st2)
       \<and> (\<forall>u \<in> set (task_plan ?st2). task_id u \<noteq> tid)"
    using recovery_loop_converts[of "archive_name pid" listing pid ?m
        "Pack tid pid fs" ?st1', OF assms(8) _ _ parse_pack_id_archive_name m inc]
      archive_name_affixes[of pid] by simp
  have ex: "recovery_tasks ?st2 = map ?conv ?R"
    "task_plan ?st2 = filter (\<lambda>u. task_id u \<notin> task_id ` set ?R)
                        (filter (\<lambda>t. task_id t \<notin> ?done) ?stored)"
    using recovery_loop_exact[of ?m listing ?st1'] comp rp(5) by simp_all
  have dp: "distinct (listed_pack_ids listing) \<longrightarrow> distinct (map pack_id (recovery_tasks ?st2))"
    using recovered_props(2)[of listing ?stored ?done] by (simp add: ex(1) comp_def)
  have dt: "distinct (listed_pack_ids listing) \<and> distinct (map task_id ?stored)
      \<longrightarrow> distinct (map task_id ?sub)"
  proof
    assume h: "distinct (listed_pack_ids listing) \<and> distinct (map task_id ?stored)"
    have dR: "distinct ?R"
      using recovered_props(2)[of listing ?stored ?done] h by (auto simp: distinct_map)
    have sR: "set ?R \<subseteq> set ?stored" using recovered_props(1)[of ?stored ?done listing] by auto
    have inj: "inj_on task_id (set ?stored)" using h by (simp add: distinct_map)
    have a: "distinct (map task_id ?R)"
      using dR inj sR by (auto simp: distinct_map intro: inj_on_subset)
    have b: "distinct (map task_id (task_plan ?st2))"
      using h unfolding ex(2) by (intro distinct_map_filter) simp
    have c: "set (map task_id (map ?conv ?R)) \<inter> set (map task_id (task_plan ?st2)) = {}"
      unfolding ex(2) by (auto simp: image_iff)
    show "distinct (map task_id ?sub)"
      using a b c by (simp add: ex(1) comp_def)
  qed
  have rne: "recovery_tasks ?st2 \<noteq> []" using conv by auto
  have ne: "\<not> (task_plan ?start = [] \<and> recovery_tasks ?start = [])"
    using rne by simp
  have e0: "execute_plan fl [] ?start = submit_plan ?start"
    using rne by (simp add: execute_plan_def)
  have af: "active_futures (execute_plan fl [] ?start)
      = zip (map MainFuture [next_future ?st2..<next_future ?st2 + length ?sub]) ?sub"
    unfolding e0 using submit_plan_order[of ?start] by simp
  have ev: "execute_plan fl evs ?start = foldl (step fl) (execute_plan fl [] ?start) evs"
    using execute_plan_events[of fl evs ?start] ne by blast
  have se: "\<not> stop_event ?st2" using assms(2) rp(6) by (simp add: recovery_loop_other_fields)
  have run: "run fl shuffle uuid4 all_files (Some sd) (Some listing) evs st
      = finally_clause
          (let st' = execute_plan fl evs ?start
           in if \<not> stop_event st' then status_callback Msg_done (Some 100) st' else st')"
    unfolding run_def pp execute_phase_def using assms(2) rne by (simp add: Let_def)
  show ?thesis
    unfolding Let_def pp using conv dp dt af ev run[unfolded Let_def] by blast
qed

theorem C4_recovery_first_witness:
  "resume_session ex_resume_logic \<and> \<not> stop_event ex_resume_logic
   \<and> sd_source_dir ex_resume_session = Some (source_dir ex_resume_logic)
   \<and> sd_target_dir ex_resume_session = Some (target_dir ex_resume_logic)
   \<and> distinct (map pack_id (filter is_pack (get_default [] (sd_task_plan ex_resume_session))))
   \<and> Pack (py ''t3'') 2 [ex_file ''c'' 100] \<in> set (get_default [] (sd_task_plan ex_resume_session))
   \<and> py ''t3'' \<notin> set (get_default [] (sd_completed_task_ids ex_resume_session))
   \<and> archive_name 2 \<in> set ex_cache_listing
   \<and> listed_pack_ids ex_cache_listing = [2]
   \<and> distinct (map task_id (get_default [] (sd_task_plan ex_resume_session)))
   \<and> recovery_tasks (plan_phase (\<lambda>x. x) (\<lambda>xs. xs) ex_uuid4 [] (Some ex_resume_session)
          (Some ex_cache_listing) (resume_phase (\<lambda>x. x) (Some ex_resume_session) ex_resume_logic))
       = [ResumeExtract (py ''t3'') 2 [ex_file ''c'' 100]]
   \<and> task_plan (plan_phase (\<lambda>x. x) (\<lambda>xs. xs) ex_uuid4 [] (Some ex_resume_session)
          (Some ex_cache_listing) (resume_phase (\<lambda>x. x) (Some ex_resume_session) ex_resume_logic))
       = [MoveLarge (py ''t1'') (ex_file ''big'' 700), Pack (py ''t4'') 3 [ex_file ''d'' 50]]
   \<and> active_futures (execute_plan (\<lambda>x. x) [] (status_callback (Msg_start 2) None
          (plan_phase (\<lambda>x. x) (\<lambda>xs. xs) ex_uuid4 [] (Some ex_resume_session)
             (Some ex_cache_listing) (resume_phase (\<lambda>x. x) (Some ex_resume_session) ex_resume_logic))))
       = [(MainFuture 0, ResumeExtract (py ''t3'') 2 [ex_file ''c'' 100]),
          (MainFuture 1, MoveLarge (py ''t1'') (ex_file ''big'' 700)),
          (MainFuture 2, Pack (py ''t4'') 3 [ex_file ''d'' 50])]
   \<and> active_futures (run (\<lambda>x. x) (\<lambda>xs. xs) ex_uuid4 [] (Some ex_resume_session)
          (Some ex_cache_listing) [] ex_resume_logic)
       = [(MainFuture 0, ResumeExtract (py ''t3'') 2 [ex_file ''c'' 100]),
          (MainFuture 1, MoveLarge (py ''t1'') (ex_file ''big'' 700)),
          (MainFuture 2, Pack (py ''t4'') 3 [ex_file ''d'' 50])]"
proof -
  let ?st2 = "plan_phase (\<lambda>x. x) (\<lambda>xs. xs) ex_uuid4 [] (Some ex_resume_session)
          (Some ex_cache_listing) (resume_phase (\<lambda>x. x) (Some ex_resume_session) ex_resume_logic)"
  let ?afs = "[(MainFuture 0, ResumeExtract (py ''t3'') 2 [ex_file ''c'' 100]),
          (MainFuture 1, MoveLarge (py ''t1'') (ex_file ''big'' 700)),
          (MainFuture 2, Pack (py ''t4'') 3 [ex_file ''d'' 50])]"
  have h1: "resume_session ex_resume_logic" by (simp add: ex_resume_logic_def init_logic_def)
  have h0: "\<not> stop_event ex_resume_logic" by (simp add: ex_resume_logic_def init_logic_def)
  have h2: "sd_source_dir ex_resume_session = Some (source_dir ex_resume_logic)"
    by (simp add: ex_resume_session_def ex_resume_logic_def init_logic_def)
  have h3: "sd_target_dir ex_resume_session = Some (target_dir ex_resume_logic)"
    by (simp add: ex_resume_session_def ex_resume_logic_def init_logic_def)
  have h4: "distinct (map pack_id (filter is_pack (get_default [] (sd_task_plan ex_resume_session))))"
    by (simp add: ex_resume_session_def get_default_def is_pack_def)
  have h5: "Pack (py ''t3'') 2 [ex_file ''c'' 100] \<in> set (get_default [] (sd_task_plan ex_resume_session))"
    by (simp add: ex_resume_session_def get_default_def)
  have h6: "py ''t3'' \<notin> set (get_default [] (sd_completed_task_ids ex_resume_session))"
    by (simp add: ex_resume_session_def get_default_def py_def)
  have h7: "archive_name 2 \<in> set ex_cache_listing"
    by (simp add: ex_cache_listing_def archive_name_def str_of_int_def digits_of_nat.simps py_def)
  have l: "listed_pack_ids ex_cache_listing = [2]"
    by (simp add: listed_pack_ids_def ex_cache_listing_def startswith_def endswith_def py_def
          List.map_filter_def parse_pack_id_def py_int_def to_ascii_def ascii_space_def
          parse_digits_def is_digit_def)
  have dt: "distinct (map task_id (get_default [] (sd_task_plan ex_resume_session)))"
    by (simp add: ex_resume_session_def get_default_def py_def)
  have ev: "recovery_tasks ?st2 = [ResumeExtract (py ''t3'') 2 [ex_file ''c'' 100]]
      \<and> task_plan ?st2 = [MoveLarge (py ''t1'') (ex_file ''big'' 700), Pack (py ''t4'') 3 [ex_file ''d'' 50]]
      \<and> next_future ?st2 = 0"
    by (simp add: plan_phase_def resume_phase_def load_session_def ex_resume_session_def
      ex_resume_logic_def init_logic_def status_callback_def get_default_def Let_def py_def
      plan_recovery_tasks_def ex_cache_listing_def recovery_item_def startswith_def endswith_def
      parse_pack_id_def py_int_def to_ascii_def ascii_space_def parse_digits_def is_digit_def
      pack_id_to_task_def is_pack_def progress_percent_def)
  have len: "length (task_plan ?st2) = 2" by (simp add: ev)
  note th = C4_recovery_first[OF h1 h0 h2 h3 h4 h5 h6 h7, of "\<lambda>x. x" "\<lambda>xs. xs" ex_uuid4 "[]" "[]",
      unfolded Let_def len]
  have af: "active_futures (execute_plan (\<lambda>x. x) [] (status_callback (Msg_start 2) None ?st2)) = ?afs"
    using th by (simp add: ev upt_rec numeral_2_eq_2)
  have "run (\<lambda>x. x) (\<lambda>xs. xs) ex_uuid4 [] (Some ex_resume_session) (Some ex_cache_listing) []
          ex_resume_logic
      = finally_clause
          (if \<not> stop_event (execute_plan (\<lambda>x. x) [] (status_callback (Msg_start 2) None ?st2))
           then status_callback Msg_done (Some 100)
                  (execute_plan (\<lambda>x. x) [] (status_callback (Msg_start 2) None ?st2))
           else execute_plan (\<lambda>x. x) [] (status_callback (Msg_start 2) None ?st2))"
    using th by (elim conjE)
  then have ar: "active_futures (run (\<lambda>x. x) (\<lambda>xs. xs) ex_uuid4 [] (Some ex_resume_session)
      (Some ex_cache_listing) [] ex_resume_logic) = ?afs"
    using af by (simp add: finally_clause_def Let_def)
  show ?thesis using h0 h1 h2 h3 h4 h5 h6 h7 l dt ev af ar by simp
qed

section \<open>The failure policy of the callbacks\<close>



































section \<open>Progress in fresh and resumed runs\<close>

lemma execute_phase_values:
  assumes "mono fl" "fl 1 = 1" "fl 100 = 100"
    and fc: "final_callbacks st = []"
    and nn: "\<forall>t \<in> set (recovery_tasks st @ task_plan st). 0 \<le> task_size t"
    and p0: "0 \<le> processed_size st"
    and bud: "processed_size st + sum_list (map task_size (recovery_tasks st @ task_plan st))
                \<le> total_transfer_size st"
    and srt: "sorted (progress_values st)"
    and bnd: "\<forall>p \<in> set (progress_values st).
                0 < total_transfer_size st
                \<and> p \<le> progress_percent fl (processed_size st) (total_transfer_size st)"
  shows "sorted (progress_values (finally_clause (execute_phase fl evs st)))
       \<and> (\<forall>p \<in> set (progress_values (finally_clause (execute_phase fl evs st))). p \<le> 100)
       \<and> (0 < total_transfer_size st \<longrightarrow>
            processed_size (finally_clause (execute_phase fl evs st)) \<le> total_transfer_size st)
       \<and> total_transfer_size (finally_clause (execute_phase fl evs st)) = total_transfer_size st"
proof -
  let ?T = "total_transfer_size st"
  let ?ts = "recovery_tasks st @ task_plan st"
  have sn: "0 \<le> sum_list (map task_size ?ts)" using nn by (intro sum_list_nonneg) auto
  have ple: "processed_size st \<le> ?T" using bud sn by simp
  have v100: "\<forall>p \<in> set (progress_values st). p \<le> 100"
  proof
    fix p assume p: "p \<in> set (progress_values st)"
    have "progress_percent fl (processed_size st) ?T \<le> 100"
      using progress_percent_le_100[OF assms(1,2,3) _ ple] bnd p by blast
    then show "p \<le> 100" using bnd p by fastforce
  qed
  let ?st1 = "status_callback (Msg_start (length (task_plan st))) None st"
  let ?sub = "submit_plan ?st1"
  let ?E = "foldl (step fl) ?sub evs"
  have E: "sorted (progress_values ?E) \<and> (\<forall>p \<in> set (progress_values ?E). p \<le> 100)
      \<and> (0 < ?T \<longrightarrow> processed_size ?E \<le> ?T) \<and> total_transfer_size ?E = ?T"
  proof -
    have totsub: "total_transfer_size ?sub = ?T" by simp
    have totE: "total_transfer_size ?E = ?T" by simp
    have vsub: "progress_values ?sub = progress_values st"
    proof -
      have "progress_values ?sub = progress_values ?st1" by (rule progress_values_cong) simp
      then show ?thesis by simp
    qed
    have psub: "processed_size ?sub = processed_size st" by simp
    have pend: "pending ?sub = ?ts" using pending_submit_plan[of ?st1] fc by simp
    show ?thesis
    proof (cases "0 < ?T")
      case False
      have z: "?T = 0" using False ple p0 by simp
      have e: "progress_values st = []" using bnd False by (cases "progress_values st") auto
      have "progress_values ?E = []"
        using steps_zero_values[of ?sub fl evs] totsub z vsub e by simp
      then show ?thesis using False totE by simp
    next
      case True
      have v: "values_ok fl ?sub"
        unfolding values_ok_def using True totsub vsub psub p0 srt bnd by simp
      have b: "budget_ok ?sub 0"
        unfolding budget_ok_def pend using nn bud totsub psub by simp
      have vb: "values_ok fl ?E" "budget_ok ?E 0"
        using steps_credit[OF assms(1) v b, of evs] by simp_all
      have "0 \<le> sum_list (map task_size (pending ?E))"
        using vb(2) by (intro sum_list_nonneg) (auto simp: budget_ok_def)
      then have le: "processed_size ?E \<le> ?T"
        using vb(2) totE by (simp add: budget_ok_def)
      have "progress_percent fl (processed_size ?E) ?T \<le> 100"
        using progress_percent_le_100[OF assms(1,2,3) True le] .
      then have "\<forall>p \<in> set (progress_values ?E). p \<le> 100"
        using vb(1) totE by (fastforce simp: values_ok_def)
      then show ?thesis using vb(1) le totE by (simp add: values_ok_def)
    qed
  qed
  let ?N = "status_callback Msg_no_tasks None ?st1"
  have N: "sorted (progress_values ?N) \<and> (\<forall>p \<in> set (progress_values ?N). p \<le> 100)
      \<and> (0 < ?T \<longrightarrow> processed_size ?N \<le> ?T) \<and> total_transfer_size ?N = ?T"
    using srt v100 ple by simp
  let ?X = "execute_plan fl evs ?st1"
  have X: "sorted (progress_values ?X) \<and> (\<forall>p \<in> set (progress_values ?X). p \<le> 100)
      \<and> (0 < ?T \<longrightarrow> processed_size ?X \<le> ?T) \<and> total_transfer_size ?X = ?T"
  proof (cases "task_plan st = [] \<and> recovery_tasks st = []")
    case True
    then have "?X = ?N" by (simp add: execute_plan_def)
    then show ?thesis using N by simp
  next
    case False
    then have "?X = ?E" by (auto simp: execute_plan_def)
    then show ?thesis using E by simp
  qed
  have dn: "\<And>s. sorted (progress_values s) \<and> (\<forall>p \<in> set (progress_values s). p \<le> 100)
      \<and> (0 < ?T \<longrightarrow> processed_size s \<le> ?T) \<and> total_transfer_size s = ?T \<Longrightarrow>
      sorted (progress_values (status_callback Msg_done (Some 100) s))
      \<and> (\<forall>p \<in> set (progress_values (status_callback Msg_done (Some 100) s)). p \<le> 100)
      \<and> (0 < ?T \<longrightarrow> processed_size (status_callback Msg_done (Some 100) s) \<le> ?T)
      \<and> total_transfer_size (status_callback Msg_done (Some 100) s) = ?T"
    using sorted_snoc_100 by simp
  have P: "sorted (progress_values (execute_phase fl evs st))
      \<and> (\<forall>p \<in> set (progress_values (execute_phase fl evs st)). p \<le> 100)
      \<and> (0 < ?T \<longrightarrow> processed_size (execute_phase fl evs st) \<le> ?T)
      \<and> total_transfer_size (execute_phase fl evs st) = ?T"
  proof (cases "task_plan st = [] \<and> recovery_tasks st = [] \<and> \<not> resume_session st")
    case True
    then have "execute_phase fl evs st = status_callback Msg_done (Some 100) st"
      by (simp add: execute_phase_def)
    then show ?thesis using dn[of st] srt v100 ple by simp
  next
    case False
    then have e: "execute_phase fl evs st
        = (if \<not> stop_event ?X then status_callback Msg_done (Some 100) ?X else ?X)"
      by (auto simp: execute_phase_def Let_def)
    show ?thesis unfolding e using X dn[of ?X] by (cases "stop_event ?X") simp_all
  qed
  show ?thesis using P by simp
qed

lemma load_tasks_credit:
  "processed_size (load_tasks ts st)
     = processed_size st
       + sum_list (map credit (filter (\<lambda>t. task_id t \<in> completed_task_ids st) ts))"
  by (induction ts arbitrary: st)
     (auto simp: load_tasks_fields credit_def task_size_def split: task.splits)

lemma load_tasks_other_fields:
  "final_callbacks (load_tasks ts st) = final_callbacks st"
  "status_calls (load_tasks ts st) = status_calls st"
  by (induction ts arbitrary: st) (auto split: task.splits)

lemma recovery_loop_fields:
  "total_transfer_size (recovery_loop m items st) = total_transfer_size st"
  "processed_size (recovery_loop m items st) = processed_size st"
  "final_callbacks (recovery_loop m items st) = final_callbacks st"
  "status_calls (recovery_loop m items st) = status_calls st"
proof -
  have i: "\<And>item s. total_transfer_size (recovery_item m item s) = total_transfer_size s
      \<and> processed_size (recovery_item m item s) = processed_size s
      \<and> final_callbacks (recovery_item m item s) = final_callbacks s
      \<and> status_calls (recovery_item m item s) = status_calls s"
    by (simp add: recovery_item_def split: option.splits)
  show "total_transfer_size (recovery_loop m items st) = total_transfer_size st"
    by (induction items arbitrary: st) (simp_all add: i)
  show "processed_size (recovery_loop m items st) = processed_size st"
    by (induction items arbitrary: st) (simp_all add: i)
  show "final_callbacks (recovery_loop m items st) = final_callbacks st"
    by (induction items arbitrary: st) (simp_all add: i)
  show "status_calls (recovery_loop m items st) = status_calls st"
    by (induction items arbitrary: st) (simp_all add: i)
qed

lemma resumed_fields:
  assumes "resume_session st"
    and "sd_source_dir sd = Some (source_dir st)" and "sd_target_dir sd = Some (target_dir st)"
  shows "total_transfer_size (resume_phase fl (Some sd) st) = get_default 0 (sd_total_transfer_size sd)"
    and "processed_size (resume_phase fl (Some sd) st)
         = sum_list (map credit (filter (\<lambda>t. task_id t \<in> set (get_default [] (sd_completed_task_ids sd)))
                                   (get_default [] (sd_task_plan sd))))"
    and "final_callbacks (resume_phase fl (Some sd) st) = final_callbacks st"
    and "progress_values (resume_phase fl (Some sd) st)
         = progress_values st
           @ (if 0 < get_default 0 (sd_total_transfer_size sd)
              then [progress_percent fl (processed_size (resume_phase fl (Some sd) st))
                      (get_default 0 (sd_total_transfer_size sd))]
              else [])"
    and "resume_session (resume_phase fl (Some sd) st)"
proof -
  note rp = resumed_plan(1)[OF assms, of fl]
  show "total_transfer_size (resume_phase fl (Some sd) st) = get_default 0 (sd_total_transfer_size sd)"
    unfolding rp using assms(2,3)
    by (simp add: load_session_def status_callback_def Let_def load_tasks_fields)
  show p: "processed_size (resume_phase fl (Some sd) st)
         = sum_list (map credit (filter (\<lambda>t. task_id t \<in> set (get_default [] (sd_completed_task_ids sd)))
                                   (get_default [] (sd_task_plan sd))))"
    unfolding rp using assms(2,3)
    by (simp add: load_session_def status_callback_def Let_def load_tasks_fields load_tasks_credit)
  show "final_callbacks (resume_phase fl (Some sd) st) = final_callbacks st"
    unfolding rp using assms(2,3)
    by (simp add: load_session_def status_callback_def Let_def load_tasks_other_fields)
  show "progress_values (resume_phase fl (Some sd) st)
         = progress_values st
           @ (if 0 < get_default 0 (sd_total_transfer_size sd)
              then [progress_percent fl (processed_size (resume_phase fl (Some sd) st))
                      (get_default 0 (sd_total_transfer_size sd))]
              else [])"
    unfolding p unfolding rp using assms(2,3)
    by (simp add: load_session_def status_callback_def Let_def load_tasks_fields load_tasks_credit
          load_tasks_other_fields progress_values_def List.map_filter_def)
  show "resume_session (resume_phase fl (Some sd) st)"
    unfolding rp using assms
    by (simp add: load_session_def status_callback_def Let_def load_tasks_resume_session)
qed

lemma sum_distinct_subset:
  fixes f :: "'a \<Rightarrow> int"
  shows "distinct rs \<Longrightarrow> set rs \<subseteq> set xs \<Longrightarrow> \<forall>x \<in> set xs. 0 \<le> f x \<Longrightarrow>
         sum_list (map f rs) \<le> sum_list (map f xs)"
proof (induction rs arbitrary: xs)
  case Nil
  have "0 \<le> sum_list (map f xs)" using Nil.prems(3) by (intro sum_list_nonneg) auto
  then show ?case by simp
next
  case (Cons r rs)
  have r: "r \<in> set xs" using Cons.prems(2) by simp
  have s: "sum_list (map f xs) = f r + sum_list (map f (remove1 r xs))"
    using sum_list_map_remove1[OF r, of f] .
  have sub: "set rs \<subseteq> set (remove1 r xs)"
  proof
    fix x assume x: "x \<in> set rs"
    then have "x \<noteq> r" "x \<in> set xs" using Cons.prems(1,2) by auto
    then show "x \<in> set (remove1 r xs)" by (simp add: in_set_remove1)
  qed
  have nn: "\<forall>x \<in> set (remove1 r xs). 0 \<le> f x"
    using Cons.prems(3) by (meson notin_set_remove1)
  have "sum_list (map f rs) \<le> sum_list (map f (remove1 r xs))"
    using Cons.IH[OF _ sub nn] Cons.prems(1) by simp
  then show ?case using s by simp
qed

lemma credit_bounds: "0 \<le> task_size t \<Longrightarrow> 0 \<le> credit t \<and> credit t \<le> task_size t"
  by (cases t) (simp_all add: credit_def)

lemma sum_credit_le:
  "\<forall>t \<in> set ts. 0 \<le> task_size t \<Longrightarrow>
   0 \<le> sum_list (map credit ts) \<and> sum_list (map credit ts) \<le> sum_list (map task_size ts)"
proof (induction ts)
  case Nil
  then show ?case by simp
next
  case (Cons t ts)
  then show ?case using credit_bounds[of t] by auto
qed

lemma resumed_budget:
  assumes "resume_session st"
    and "sd_source_dir sd = Some (source_dir st)" and "sd_target_dir sd = Some (target_dir st)"
    and "session_ok sd"
    and "\<forall>items. listing = Some items \<longrightarrow> distinct (listed_pack_ids items)"
  shows "\<forall>t \<in> set (recovery_tasks (plan_phase fl shuffle uuid4 all_files (Some sd) listing
                                      (resume_phase fl (Some sd) st))
                     @ task_plan (plan_phase fl shuffle uuid4 all_files (Some sd) listing
                                    (resume_phase fl (Some sd) st))). 0 \<le> task_size t"
    and "0 \<le> processed_size (resume_phase fl (Some sd) st)"
    and "processed_size (resume_phase fl (Some sd) st)
         + sum_list (map task_size
             (recovery_tasks (plan_phase fl shuffle uuid4 all_files (Some sd) listing
                                (resume_phase fl (Some sd) st))
              @ task_plan (plan_phase fl shuffle uuid4 all_files (Some sd) listing
                             (resume_phase fl (Some sd) st))))
         \<le> get_default 0 (sd_total_transfer_size sd)"
proof -
  let ?stored = "get_default [] (sd_task_plan sd)"
  let ?done = "set (get_default [] (sd_completed_task_ids sd))"
  let ?T = "get_default 0 (sd_total_transfer_size sd)"
  let ?m = "pack_id_to_task ?stored"
  let ?st1 = "resume_phase fl (Some sd) st"
  let ?P1 = "filter (\<lambda>t. task_id t \<notin> ?done) ?stored"
  let ?C = "filter (\<lambda>t. task_id t \<in> ?done) ?stored"
  let ?conv = "\<lambda>t. ResumeExtract (task_id t) (pack_id t) (files t)"
  let ?planned = "plan_phase fl shuffle uuid4 all_files (Some sd) listing ?st1"
  note rp = resumed_plan[OF assms(1,2,3), of fl]
  note rf = resumed_fields[OF assms(1,2,3), of fl]
  have nn: "\<forall>t \<in> set ?stored. 0 \<le> task_size t"
    using assms(4) by (simp add: session_ok_def list_all_iff)
  have tot: "sum_list (map task_size ?stored) \<le> ?T" using assms(4) by (simp add: session_ok_def)
  have nnC: "\<forall>t \<in> set ?C. 0 \<le> task_size t" using nn by simp
  have nnP: "\<forall>t \<in> set ?P1. 0 \<le> task_size t" using nn by simp
  have pr: "processed_size ?st1 = sum_list (map credit ?C)" by (rule rf(2))
  have pc: "0 \<le> processed_size ?st1 \<and> processed_size ?st1 \<le> sum_list (map task_size ?C)"
    unfolding pr using sum_credit_le[OF nnC] .
  have part: "sum_list (map task_size ?C) + sum_list (map task_size ?P1)
      = sum_list (map task_size ?stored)"
    by (rule sum_filter_partition)
  show "0 \<le> processed_size ?st1" using pc by simp
  have main: "(\<forall>t \<in> set (recovery_tasks ?planned @ task_plan ?planned). 0 \<le> task_size t)
      \<and> sum_list (map task_size (recovery_tasks ?planned @ task_plan ?planned))
          \<le> sum_list (map task_size ?P1)"
  proof (cases listing)
    case None
    have "recovery_tasks ?planned = [] \<and> task_plan ?planned = ?P1"
      unfolding None rp(3) using rp(5) by simp
    then show ?thesis using nnP by simp
  next
    case (Some items)
    let ?R = "recovered ?m ?done items"
    let ?st1' = "?st1\<lparr> recovery_tasks := [] \<rparr>"
    have comp: "completed_task_ids ?st1' = ?done" using rp(4) by simp
    have ex: "recovery_tasks ?planned = map ?conv ?R"
      "task_plan ?planned = filter (\<lambda>u. task_id u \<notin> task_id ` set ?R) ?P1"
      unfolding Some rp(2) using recovery_loop_exact[of ?m items ?st1'] comp rp(5) by simp_all
    have dl: "distinct (listed_pack_ids items)" using assms(5) Some by simp
    have dR: "distinct ?R"
      using recovered_props(2)[OF dl, of ?stored ?done] by (auto simp: distinct_map)
    have sR: "set ?R \<subseteq> {t \<in> set ?stored. is_pack t \<and> task_id t \<notin> ?done}"
      by (rule recovered_props(1))
    have cs: "\<And>t. t \<in> set ?R \<Longrightarrow> task_size (?conv t) = task_size t"
    proof -
      fix t assume "t \<in> set ?R"
      then have "is_pack t" using sR by auto
      then show "task_size (?conv t) = task_size t"
        by (cases t) (simp_all add: is_pack_def task_size_def)
    qed
    have sc: "sum_list (map task_size (map ?conv ?R)) = sum_list (map task_size ?R)"
      using cs by (simp add: comp_def cong: map_cong)
    let ?In = "filter (\<lambda>u. task_id u \<in> task_id ` set ?R) ?P1"
    let ?Out = "filter (\<lambda>u. task_id u \<notin> task_id ` set ?R) ?P1"
    have sub: "set ?R \<subseteq> set ?In" using sR by auto
    have nnI: "\<forall>t \<in> set ?In. 0 \<le> task_size t" using nnP by simp
    have le: "sum_list (map task_size ?R) \<le> sum_list (map task_size ?In)"
      using sum_distinct_subset[OF dR sub nnI] .
    have p2: "sum_list (map task_size ?In) + sum_list (map task_size ?Out)
        = sum_list (map task_size ?P1)"
      by (rule sum_filter_partition)
    have nr: "\<forall>t \<in> set (map ?conv ?R). 0 \<le> task_size t"
      using cs sR nn by auto
    have no: "\<forall>t \<in> set ?Out. 0 \<le> task_size t" using nnP by simp
    show ?thesis
      unfolding ex using nr no sc le p2 by auto
  qed
  show "\<forall>t \<in> set (recovery_tasks ?planned @ task_plan ?planned). 0 \<le> task_size t"
    using main by blast
  show "processed_size ?st1
         + sum_list (map task_size (recovery_tasks ?planned @ task_plan ?planned)) \<le> ?T"
    using main pc part tot by linarith
qed

lemma resumed_planned_fields:
  assumes "resume_session st"
    and "sd_source_dir sd = Some (source_dir st)" and "sd_target_dir sd = Some (target_dir st)"
  shows "total_transfer_size (plan_phase fl shuffle uuid4 all_files (Some sd) listing
            (resume_phase fl (Some sd) st)) = total_transfer_size (resume_phase fl (Some sd) st)"
    and "processed_size (plan_phase fl shuffle uuid4 all_files (Some sd) listing
            (resume_phase fl (Some sd) st)) = processed_size (resume_phase fl (Some sd) st)"
    and "final_callbacks (plan_phase fl shuffle uuid4 all_files (Some sd) listing
            (resume_phase fl (Some sd) st)) = final_callbacks (resume_phase fl (Some sd) st)"
    and "progress_values (plan_phase fl shuffle uuid4 all_files (Some sd) listing
            (resume_phase fl (Some sd) st)) = progress_values (resume_phase fl (Some sd) st)"
proof -
  note rp = resumed_plan[OF assms, of fl]
  have "total_transfer_size (plan_phase fl shuffle uuid4 all_files (Some sd) listing
            (resume_phase fl (Some sd) st)) = total_transfer_size (resume_phase fl (Some sd) st)
      \<and> processed_size (plan_phase fl shuffle uuid4 all_files (Some sd) listing
            (resume_phase fl (Some sd) st)) = processed_size (resume_phase fl (Some sd) st)
      \<and> final_callbacks (plan_phase fl shuffle uuid4 all_files (Some sd) listing
            (resume_phase fl (Some sd) st)) = final_callbacks (resume_phase fl (Some sd) st)
      \<and> status_calls (plan_phase fl shuffle uuid4 all_files (Some sd) listing
            (resume_phase fl (Some sd) st)) = status_calls (resume_phase fl (Some sd) st)"
  proof (cases listing)
    case None
    show ?thesis unfolding None rp(3) by simp
  next
    case (Some items)
    show ?thesis unfolding Some rp(2) by (simp add: recovery_loop_fields)
  qed
  then show "total_transfer_size (plan_phase fl shuffle uuid4 all_files (Some sd) listing
            (resume_phase fl (Some sd) st)) = total_transfer_size (resume_phase fl (Some sd) st)"
    and "processed_size (plan_phase fl shuffle uuid4 all_files (Some sd) listing
            (resume_phase fl (Some sd) st)) = processed_size (resume_phase fl (Some sd) st)"
    and "final_callbacks (plan_phase fl shuffle uuid4 all_files (Some sd) listing
            (resume_phase fl (Some sd) st)) = final_callbacks (resume_phase fl (Some sd) st)"
    and "progress_values (plan_phase fl shuffle uuid4 all_files (Some sd) listing
            (resume_phase fl (Some sd) st)) = progress_values (resume_phase fl (Some sd) st)"
    by (simp_all add: progress_values_def)
qed

lemma fresh_plan_props:
  assumes "\<not> resume_session st" "task_plan st = []" "processed_size st = 0"
    "progress_values st = []" "final_callbacks st = []"
    and "\<forall>f \<in> set all_files. 0 \<le> size_bytes f"
    and "\<forall>xs. mset (shuffle xs) = mset xs"
  shows "recovery_tasks (plan_phase fl shuffle uuid4 all_files sf listing st) = []"
    and "\<forall>t \<in> set (task_plan (plan_phase fl shuffle uuid4 all_files sf listing st)). 0 \<le> task_size t"
    and "sum_list (map task_size (task_plan (plan_phase fl shuffle uuid4 all_files sf listing st)))
         = total_transfer_size (plan_phase fl shuffle uuid4 all_files sf listing st)"
    and "processed_size (plan_phase fl shuffle uuid4 all_files sf listing st) = 0"
    and "progress_values (plan_phase fl shuffle uuid4 all_files sf listing st) = []"
    and "final_callbacks (plan_phase fl shuffle uuid4 all_files sf listing st) = []"
    and "\<not> resume_session (plan_phase fl shuffle uuid4 all_files sf listing st)"
proof -
  let ?pre = "status_callback Msg_scan_and_plan None
                (status_callback Msg_prepare None (st\<lparr> recovery_tasks := [] \<rparr>))"
  let ?planned = "plan_phase fl shuffle uuid4 all_files sf listing st"
  have pp: "?planned = scan_and_plan fl shuffle uuid4 all_files ?pre"
    using assms(1) by (simp add: plan_phase_def Let_def)
  have tp: "task_plan ?pre = []" using assms(2) by simp
  have "progress_values (st\<lparr> recovery_tasks := [] \<rparr>) = progress_values st"
    by (simp add: progress_values_def)
  then have pv: "progress_values ?pre = []"
    using assms(4) by simp
  show "recovery_tasks ?planned = []" unfolding pp by simp
  show "processed_size ?planned = 0" unfolding pp using assms(3) by simp
  show "progress_values ?planned = []" unfolding pp using pv by simp
  show "final_callbacks ?planned = []" unfolding pp using assms(5) by simp
  show "\<not> resume_session ?planned" unfolding pp using assms(1) by simp
  have "(\<forall>t \<in> set (task_plan ?planned). 0 \<le> task_size t)
      \<and> sum_list (map task_size (task_plan ?planned)) = total_transfer_size ?planned"
  proof (cases "all_files = []")
    case True
    show ?thesis
      using pp tp True by (simp add: scan_and_plan_empty scan_and_plan_total)
  next
    case False
    show ?thesis
      unfolding pp using planned_sizes[OF False tp assms(6,7), of fl uuid4]
      by (simp add: scan_and_plan_total)
  qed
  then show "\<forall>t \<in> set (task_plan ?planned). 0 \<le> task_size t"
    and "sum_list (map task_size (task_plan ?planned)) = total_transfer_size ?planned"
    by simp_all
qed

lemma load_session_accepts:
  "fst (load_session fl sf st)
     \<longleftrightarrow> (\<exists>sd. sf = Some sd \<and> sd_source_dir sd = Some (source_dir st)
               \<and> sd_target_dir sd = Some (target_dir st))"
  by (auto simp: load_session_def Let_def split: option.splits)

text \<open>
  Claim C6. In a run, whatever the order in which the pools finish their work,
  the progress values passed to the status callback are non-decreasing and at
  most 100. When the run starts to execute, \<open>processed_size\<close> and the sizes of the
  tasks to submit add up to at most \<open>total_transfer_size\<close> (in a fresh run the
  task sizes of the plan add up to exactly that), each task is credited once, and
  \<open>processed_size\<close> never exceeds a positive total (with total 0 no progress value
  is passed but the final 100). Float rounding is any monotone \<open>fl\<close> that is
  exact on 1 and 100; file sizes are not negative; \<open>shuffle\<close> is any permutation.
  For a resumed run whose session loads, the session is as a run leaves it (no
  task of negative size, the stored task sizes within the stored total) and no
  two archive names listed in the cache directory yield the same pack id: the
  recovery scan appends a task once for each such name, and each copy is
  credited.
\<close>

theorem C6_progress_monotone:
  assumes "mono fl" and "fl 1 = 1" and "fl 100 = 100"
    and "\<forall>f \<in> set all_files. 0 \<le> size_bytes f"
    and "\<forall>xs. mset (shuffle xs) = mset xs"
    and "\<forall>sd. resume \<and> sf = Some sd \<and> sd_source_dir sd = Some src \<and> sd_target_dir sd = Some dst
               \<longrightarrow> session_ok sd"
    and "\<forall>items. resume \<and> listing = Some items \<longrightarrow> distinct (listed_pack_ids items)"
  shows "let st0 = init_logic src dst workers mb limit resume copy mklink;
             planned = plan_phase fl shuffle uuid4 all_files sf listing (resume_phase fl sf st0);
             st' = run fl shuffle uuid4 all_files sf listing evs st0
         in sorted (progress_values st')
          \<and> (\<forall>p \<in> set (progress_values st'). p \<le> 100)
          \<and> (\<not> resume_session planned \<longrightarrow>
                sum_list (map task_size (task_plan planned)) = total_transfer_size planned)
          \<and> processed_size planned
              + sum_list (map task_size (recovery_tasks planned @ task_plan planned))
              \<le> total_transfer_size planned
          \<and> (0 < total_transfer_size st' \<longrightarrow> processed_size st' \<le> total_transfer_size st')"
proof -
  let ?st0 = "init_logic src dst workers mb limit resume copy mklink"
  let ?st1 = "resume_phase fl sf ?st0"
  let ?planned = "plan_phase fl shuffle uuid4 all_files sf listing ?st1"
  let ?r = "run fl shuffle uuid4 all_files sf listing evs ?st0"
  have run: "?r = finally_clause (execute_phase fl evs ?planned)"
    by (simp add: run_def init_logic_def)
  have i0: "task_plan ?st0 = []" "processed_size ?st0 = 0" "progress_values ?st0 = []"
    "final_callbacks ?st0 = []" "resume_session ?st0 = resume"
    "source_dir ?st0 = src" "target_dir ?st0 = dst"
    by (simp_all add: init_logic_def progress_values_def List.map_filter_def)
  have props: "final_callbacks ?planned = []
      \<and> (\<forall>t \<in> set (recovery_tasks ?planned @ task_plan ?planned). 0 \<le> task_size t)
      \<and> 0 \<le> processed_size ?planned
      \<and> processed_size ?planned
          + sum_list (map task_size (recovery_tasks ?planned @ task_plan ?planned))
          \<le> total_transfer_size ?planned
      \<and> sorted (progress_values ?planned)
      \<and> (\<forall>p \<in> set (progress_values ?planned).
            0 < total_transfer_size ?planned
            \<and> p \<le> progress_percent fl (processed_size ?planned) (total_transfer_size ?planned))
      \<and> (\<not> resume_session ?planned \<longrightarrow>
            sum_list (map task_size (task_plan ?planned)) = total_transfer_size ?planned)"
  proof (cases "resume \<and> fst (load_session fl sf (status_callback Msg_resuming None ?st0))")
    case False
    let ?stF = "(status_callback Msg_resuming None ?st0)
           \<lparr> resume_session := False, task_plan := [], total_transfer_size := 0,
             processed_size := 0 \<rparr>"
    have f: "\<not> resume_session ?st1 \<and> task_plan ?st1 = [] \<and> processed_size ?st1 = 0
        \<and> progress_values ?st1 = [] \<and> final_callbacks ?st1 = []"
    proof (cases resume)
      case True
      then have e: "?st1 = ?stF"
        using False resume_phase_rejected[of ?st0 fl sf] i0(5) by simp
      have "progress_values ?stF = progress_values (status_callback Msg_resuming None ?st0)"
        by (rule progress_values_cong) simp
      then have "progress_values ?stF = []" using i0(3) by simp
      moreover have "\<not> resume_session ?stF \<and> task_plan ?stF = [] \<and> processed_size ?stF = 0
          \<and> final_callbacks ?stF = []"
        using i0(4) by simp
      ultimately show ?thesis unfolding e by blast
    next
      case nr: False
      then have "?st1 = ?st0" using i0(5) by (simp add: resume_phase_def)
      then show ?thesis using i0 nr by simp
    qed
    note fp = fresh_plan_props[of ?st1 all_files shuffle fl uuid4 sf listing, OF _ _ _ _ _ assms(4,5)]
    show ?thesis
      using fp f by simp
  next
    case True
    then obtain sd where sd: "sf = Some sd" "sd_source_dir sd = Some src"
        "sd_target_dir sd = Some dst"
      using load_session_accepts[of fl sf "status_callback Msg_resuming None ?st0"]
      by (auto simp: status_callback_def init_logic_def)
    have rs: "resume_session ?st0" using True i0(5) by simp
    have d1: "sd_source_dir sd = Some (source_dir ?st0)" using sd(2) i0(6) by simp
    have d2: "sd_target_dir sd = Some (target_dir ?st0)" using sd(3) i0(7) by simp
    have ok: "session_ok sd" using assms(6) True sd by blast
    have dl: "\<forall>items. listing = Some items \<longrightarrow> distinct (listed_pack_ids items)"
      using assms(7) True by blast
    note rb = resumed_budget(1)[OF rs d1 d2 ok dl, of fl shuffle uuid4 all_files]
      resumed_budget(2)[OF rs d1 d2 ok dl, of fl]
      resumed_budget(3)[OF rs d1 d2 ok dl, of fl shuffle uuid4 all_files]
    note rf = resumed_fields[OF rs d1 d2, of fl]
    note pf = resumed_planned_fields[OF rs d1 d2, of fl shuffle uuid4 all_files listing]
    have rsp: "resume_session ?planned"
    proof (cases listing)
      case None
      show ?thesis unfolding sd(1) None resumed_plan(3)[OF rs d1 d2] using rf(5) by simp
    next
      case (Some items)
      show ?thesis
        unfolding sd(1) Some resumed_plan(2)[OF rs d1 d2]
        using rf(5) by (simp add: recovery_loop_other_fields)
    qed
    have pv: "progress_values ?planned
        = (if 0 < total_transfer_size ?planned
           then [progress_percent fl (processed_size ?planned) (total_transfer_size ?planned)]
           else [])"
      unfolding sd(1) pf rf(1) using rf(4) i0(3) by (simp add: rf(1))
    have pvs: "sorted (progress_values ?planned)
        \<and> (\<forall>p \<in> set (progress_values ?planned).
              0 < total_transfer_size ?planned
              \<and> p \<le> progress_percent fl (processed_size ?planned) (total_transfer_size ?planned))"
      unfolding pv by simp
    have fcp: "final_callbacks ?planned = []"
      unfolding sd(1) pf(3) rf(3) by (rule i0(4))
    have b1: "\<forall>t \<in> set (recovery_tasks ?planned @ task_plan ?planned). 0 \<le> task_size t"
      unfolding sd(1) by (rule rb(1))
    have b2: "0 \<le> processed_size ?planned" unfolding sd(1) pf(2) by (rule rb(2))
    have b3: "processed_size ?planned
          + sum_list (map task_size (recovery_tasks ?planned @ task_plan ?planned))
          \<le> total_transfer_size ?planned"
      unfolding sd(1) pf(1) pf(2) rf(1) by (rule rb(3))
    show ?thesis
      using fcp b1 b2 b3 pvs rsp by blast
  qed
  note ev = execute_phase_values[OF assms(1,2,3), of ?planned evs]
  have fin: "sorted (progress_values ?r) \<and> (\<forall>p \<in> set (progress_values ?r). p \<le> 100)
      \<and> (0 < total_transfer_size ?planned \<longrightarrow> processed_size ?r \<le> total_transfer_size ?planned)
      \<and> total_transfer_size ?r = total_transfer_size ?planned"
    unfolding run using ev props by blast
  show ?thesis
    unfolding Let_def using fin props by simp
qed

lemma ex_resume_planned:
  "plan_phase (\<lambda>x. x) (\<lambda>xs. xs) ex_uuid4 [] (Some ex_resume_session) (Some ex_cache_listing)
     (resume_phase (\<lambda>x. x) (Some ex_resume_session) ex_resume_logic)
   = ex_resume_logic\<lparr> task_plan := [MoveLarge (py ''t1'') (ex_file ''big'' 700),
                                       Pack (py ''t4'') 3 [ex_file ''d'' 50]],
                       recovery_tasks := [ResumeExtract (py ''t3'') 2 [ex_file ''c'' 100]],
                       total_transfer_size := 1000, processed_size := 150,
                       completed_task_ids := {py ''t2''},
                       status_calls := [(Msg_resuming, None), (Msg_resumed 15, Some 15)] \<rparr>"
  by (simp add: plan_phase_def resume_phase_def load_session_def ex_resume_session_def
      ex_resume_logic_def init_logic_def status_callback_def get_default_def Let_def py_def
      plan_recovery_tasks_def ex_cache_listing_def recovery_item_def startswith_def endswith_def
      parse_pack_id_def py_int_def to_ascii_def ascii_space_def parse_digits_def is_digit_def
      pack_id_to_task_def is_pack_def progress_percent_def ex_file_def sum_sizes_def)

lemma ex_resume_exec:
  "\<not> stop_event (foldl (step (\<lambda>x. x))
     (submit_plan (status_callback (Msg_start 2) None
        (ex_resume_logic\<lparr> task_plan := [MoveLarge (py ''t1'') (ex_file ''big'' 700),
                                       Pack (py ''t4'') 3 [ex_file ''d'' 50]],
                       recovery_tasks := [ResumeExtract (py ''t3'') 2 [ex_file ''c'' 100]],
                       total_transfer_size := 1000, processed_size := 150,
                       completed_task_ids := {py ''t2''},
                       status_calls := [(Msg_resuming, None), (Msg_resumed 15, Some 15)] \<rparr>)))
     ex_resume_events)
   \<and> status_calls (foldl (step (\<lambda>x. x))
     (submit_plan (status_callback (Msg_start 2) None
        (ex_resume_logic\<lparr> task_plan := [MoveLarge (py ''t1'') (ex_file ''big'' 700),
                                       Pack (py ''t4'') 3 [ex_file ''d'' 50]],
                       recovery_tasks := [ResumeExtract (py ''t3'') 2 [ex_file ''c'' 100]],
                       total_transfer_size := 1000, processed_size := 150,
                       completed_task_ids := {py ''t2''},
                       status_calls := [(Msg_resuming, None), (Msg_resumed 15, Some 15)] \<rparr>)))
     ex_resume_events)
   = [(Msg_resuming, None), (Msg_resumed 15, Some 15), (Msg_start 2, None),
      (Msg_progress 85, Some 85), (Msg_progress 95, Some 95), (Msg_task_failed, Some 100)]"
  by (simp add: submit_plan_def status_callback_def ex_resume_logic_def init_logic_def
      ex_resume_events_def main_task_done_callback_def cleanup_task_done_callback_def
      run_final_callbacks_def submit_cleanup_def
      final_cleanup_callback_def complete_task_def task_failed_handler_def update_progress_def
      mark_task_complete_def Let_def task_size_def ex_file_def progress_percent_def
      int_of_float_def py_def)

theorem C6_progress_monotone_witness:
  "mono (\<lambda>x::rat. x)
   \<and> list_all (\<lambda>f. 0 \<le> size_bytes f) ex_progress_files
   \<and> progress_values (run (\<lambda>x. x) (\<lambda>xs. xs) ex_uuid4 ex_progress_files None None
                          ex_progress_events ex_logic) = [50, 100, 100]
   \<and> resume_session ex_resume_logic
   \<and> session_ok ex_resume_session
   \<and> distinct (listed_pack_ids ex_cache_listing)
   \<and> progress_values (run (\<lambda>x. x) (\<lambda>xs. xs) ex_uuid4 [] (Some ex_resume_session)
                          (Some ex_cache_listing) ex_resume_events ex_resume_logic)
       = [15, 85, 95, 100, 100]
   \<and> sorted [15, 85, 95, 100, 100 :: rat]"
proof -
  have h1: "mono (\<lambda>x::rat. x)" by (simp add: mono_def)
  have h4: "\<forall>f \<in> set ex_progress_files. 0 \<le> size_bytes f"
    by (simp add: ex_progress_files_def ex_file_def)
  have h4': "\<forall>f \<in> set ([] :: file_info list). 0 \<le> size_bytes f" by simp
  have h5: "\<forall>xs::file_info list. mset ((\<lambda>xs. xs) xs) = mset xs" by simp
  have ne: "ex_progress_files \<noteq> []" by (simp add: ex_progress_files_def)
  let ?r = "run (\<lambda>x. x) (\<lambda>xs. xs) ex_uuid4 ex_progress_files None None ex_progress_events ex_logic"
  have len: "length (task_plan (ex_logic\<lparr> task_plan := [Pack (ex_uuid4 0) 1 [ex_file ''a'' 100, ex_file ''b'' 50],
                                Pack (ex_uuid4 1) 2 [ex_file ''c'' 150]],
                total_transfer_size := 300,
                status_calls := [(Msg_prepare, None), (Msg_scan_and_plan, None),
                                 (Msg_scanning, None), (Msg_threshold 16, None)] \<rparr>)) = 2"
    by simp
  let ?E = "foldl (step (\<lambda>x. x))
     (submit_plan (status_callback (Msg_start 2) None
        (ex_logic\<lparr> task_plan := [Pack (ex_uuid4 0) 1 [ex_file ''a'' 100, ex_file ''b'' 50],
                                Pack (ex_uuid4 1) 2 [ex_file ''c'' 150]],
                total_transfer_size := 300,
                status_calls := [(Msg_prepare, None), (Msg_scan_and_plan, None),
                                 (Msg_scanning, None), (Msg_threshold 16, None)] \<rparr>)))
     ex_progress_events"
  have pvE: "progress_values ?E = [50, 100]"
    using conjunct2[OF ex_progress_exec] by (simp add: progress_values_def List.map_filter_def)
  have se: "\<not> stop_event ?E" using ex_progress_exec by blast
  have ev: "progress_values ?r = [50, 100, 100]"
    unfolding run_fresh[OF ne h5, of "\<lambda>x. x" ex_uuid4 None None ex_progress_events
        "py ''C:/data''" "py ''D:/backup''" 2 64 20000 False False, folded ex_logic_def]
      Let_def ex_progress_scan len
    using pvE se by simp
  let ?q = "run (\<lambda>x. x) (\<lambda>xs. xs) ex_uuid4 [] (Some ex_resume_session) (Some ex_cache_listing)
              ex_resume_events ex_resume_logic"
  let ?planned = "ex_resume_logic\<lparr> task_plan := [MoveLarge (py ''t1'') (ex_file ''big'' 700),
                                       Pack (py ''t4'') 3 [ex_file ''d'' 50]],
                       recovery_tasks := [ResumeExtract (py ''t3'') 2 [ex_file ''c'' 100]],
                       total_transfer_size := 1000, processed_size := 150,
                       completed_task_ids := {py ''t2''},
                       status_calls := [(Msg_resuming, None), (Msg_resumed 15, Some 15)] \<rparr>"
  let ?F = "foldl (step (\<lambda>x. x)) (submit_plan (status_callback (Msg_start 2) None ?planned))
              ex_resume_events"
  have rs: "resume_session ex_resume_logic" by (simp add: ex_resume_logic_def init_logic_def)
  have ns: "\<not> stop_event ex_resume_logic" by (simp add: ex_resume_logic_def init_logic_def)
  have so: "session_ok ex_resume_session"
    by (simp add: session_ok_def ex_resume_session_def get_default_def task_size_def ex_file_def
          sum_sizes_def)
  have l: "listed_pack_ids ex_cache_listing = [2]"
    by (simp add: listed_pack_ids_def ex_cache_listing_def startswith_def endswith_def py_def
          List.map_filter_def parse_pack_id_def py_int_def to_ascii_def ascii_space_def
          parse_digits_def is_digit_def)
  have dl: "distinct (listed_pack_ids ex_cache_listing)" by (simp add: l)
  have len2: "length (task_plan ?planned) = 2" by simp
  have rne: "recovery_tasks ?planned \<noteq> []" by simp
  have rq: "?q = finally_clause
      (if \<not> stop_event ?F then status_callback Msg_done (Some 100) ?F else ?F)"
    unfolding run_def ex_resume_planned execute_phase_def execute_plan_def Let_def len2
    using ns rne by (simp add: status_callback_def)
  have pvF: "progress_values ?F = [15, 85, 95, 100]"
    using conjunct2[OF ex_resume_exec] by (simp add: progress_values_def List.map_filter_def)
  have sf: "\<not> stop_event ?F" using ex_resume_exec by blast
  have evq: "progress_values ?q = [15, 85, 95, 100, 100]"
    unfolding rq using pvF sf by simp
  have a6: "\<forall>sd. False \<and> (None :: session_data option) = Some sd
      \<and> sd_source_dir sd = Some (py ''C:/data'') \<and> sd_target_dir sd = Some (py ''D:/backup'')
      \<longrightarrow> session_ok sd" by simp
  have a7: "\<forall>items. False \<and> (None :: py_str list option) = Some items
      \<longrightarrow> distinct (listed_pack_ids items)" by simp
  note th = C6_progress_monotone[OF h1 _ _ h4 h5 a6 a7, of 2 64 20000 False False ex_uuid4
      ex_progress_events, folded ex_logic_def, unfolded Let_def]
  have s1: "sorted (progress_values ?r)" using th by simp
  have b6: "\<forall>sd. True \<and> Some ex_resume_session = Some sd
      \<and> sd_source_dir sd = Some (py ''C:/data'') \<and> sd_target_dir sd = Some (py ''D:/backup'')
      \<longrightarrow> session_ok sd" using so by simp
  have b7: "\<forall>items. True \<and> Some ex_cache_listing = Some items
      \<longrightarrow> distinct (listed_pack_ids items)" using dl by simp
  note th2 = C6_progress_monotone[OF h1 _ _ h4' h5 b6 b7, of 2 64 20000 False False ex_uuid4
      ex_resume_events, folded ex_resume_logic_def, unfolded Let_def]
  have s2: "sorted (progress_values ?q)" using th2 by simp
  show ?thesis using h1 h4 ev rs so dl evq s1 s2 by (simp add: list_all_iff)
qed

end
